theory Spec2Isabelle
  imports Main "HOL-Library.Word"
begin

unbundle bit_operations_syntax

section \<open>The chained hash map of hashmap.c\<close>

text \<open>
  A shallow embedding of \<^verbatim>\<open>hashmap.c\<close>: a fixed table of bucket chains, keyed by byte
  strings, with a caller-supplied hash function and optional clone and free functions
  for the values.

  Conventions of the embedding.
  \<^item> A \<^verbatim>\<open>void*\<close> value is an opaque address, a natural number; \<open>NULL\<close> is 0.
  \<^item> A pointer whose target the code reads (the map, the key buffer, a function) is an
    \<open>option\<close>: \<open>None\<close> is the null pointer. A key buffer is the list of the bytes that
    can be read through the pointer; the size travels beside it, as in C.
  \<^item> A chain of \<^verbatim>\<open>struct _hashbucket_s\<close> linked through \<^verbatim>\<open>next\<close> is the list of its
    entries, head first; the empty list is the null chain head.
  \<^item> The caller's functions act on a state \<open>'w\<close> of the caller's own (the heap their
    values live in, or a log of the calls). The map's operations pass it along.
  \<^item> \<^verbatim>\<open>malloc\<close> may fail: every operation that allocates takes the outcome of its two
    allocations as a pair of booleans, in the order the code makes them.
  \<^item> What C leaves undefined is a value of type \<open>fault\<close>: a read past the end of a
    buffer, and a shift by the width of the type or more.
  The leading underscore of the private C names is dropped
  (\<^verbatim>\<open>_hashbucket_new\<close> is \<open>hashbucket_new\<close>).
\<close>

type_synonym byte = "8 word"

type_synonym ptr = nat

abbreviation (input) NULL :: ptr where
  "NULL \<equiv> 0"

datatype fault = OutOfBoundsRead | ShiftOverflow

text \<open>\<^verbatim>\<open>struct _hashbucket_s\<close>: the key copy, its size as a \<^verbatim>\<open>uint8_t\<close>, the value.\<close>

record hashbucket_s =
  key :: "byte list"
  key_size :: "8 word"
  val :: ptr

text \<open>\<^verbatim>\<open>struct _hashmap_s\<close>.\<close>

record 'w hashmap_s =
  bucketcount :: "32 word"
  buckets :: "hashbucket_s list list"
  hashmask :: "32 word"
  hashmap_hash_function :: "byte list \<Rightarrow> nat \<Rightarrow> 32 word"
  value_free_function :: "(ptr \<Rightarrow> 'w \<Rightarrow> 'w) option"
  value_clone_function :: "(ptr \<Rightarrow> 'w \<Rightarrow> ptr \<times> 'w) option"

subsection \<open>The C library functions the code calls\<close>

text \<open>
  \<^verbatim>\<open>memcmp (s1, s2, n)\<close> compares byte by byte and stops at the first difference; its
  sign is that of the difference of the two bytes, read as \<^verbatim>\<open>unsigned char\<close>. Running
  off the end of either buffer before a difference is found makes the result depend on
  memory the buffer does not own: a fault. (Read strictly, C leaves every call with
  \<open>n\<close> above the size of a buffer undefined; the model faults only where the bytes of the
  two buffers do not decide the result.)
\<close>

fun memcmp :: "byte list \<Rightarrow> byte list \<Rightarrow> nat \<Rightarrow> fault + int" where
  "memcmp s1 s2 0 = Inr 0"
| "memcmp (a # s1) (b # s2) (Suc n) =
     (if a = b then memcmp s1 s2 n else Inr (uint a - uint b))"
| "memcmp s1 s2 (Suc n) = Inl OutOfBoundsRead"

text \<open>\<^verbatim>\<open>memcpy (dst, src, n)\<close> into a fresh buffer of \<open>n\<close> bytes: the bytes copied.\<close>

definition memcpy :: "byte list \<Rightarrow> nat \<Rightarrow> fault + byte list" where
  "memcpy src n = (if n \<le> length src then Inr (take n src) else Inl OutOfBoundsRead)"

subsection \<open>Bucket entries\<close>

text \<open>
  \<^verbatim>\<open>_hashbucket_new (key, key_size, value, value_clone_function)\<close>. The size parameter
  is a \<^verbatim>\<open>uint8_t\<close>. \<open>None\<close> is the null result of a failed allocation.
\<close>

definition hashbucket_new ::
  "bool \<times> bool \<Rightarrow> byte list \<Rightarrow> 8 word \<Rightarrow> ptr \<Rightarrow> (ptr \<Rightarrow> 'w \<Rightarrow> ptr \<times> 'w) option \<Rightarrow> 'w
    \<Rightarrow> fault + (hashbucket_s option \<times> 'w)" where
  "hashbucket_new mem k ksize v clone w =
     (if \<not> fst mem then Inr (None, w)
      else if \<not> snd mem then Inr (None, w)
      else
        (case memcpy k (unat ksize) of
           Inl f \<Rightarrow> Inl f
         | Inr copy \<Rightarrow>
             (case clone of
                Some c \<Rightarrow>
                  (case c v w of
                     (v', w') \<Rightarrow> Inr (Some \<lparr>key = copy, key_size = ksize, val = v'\<rparr>, w'))
              | None \<Rightarrow> Inr (Some \<lparr>key = copy, key_size = ksize, val = v\<rparr>, w))))"

text \<open>\<^verbatim>\<open>_hashbucket_free (bucket, value_free_function)\<close>: the effect on the caller's state.\<close>

definition hashbucket_free :: "hashbucket_s \<Rightarrow> (ptr \<Rightarrow> 'w \<Rightarrow> 'w) option \<Rightarrow> 'w \<Rightarrow> 'w" where
  "hashbucket_free bucket free w =
     (case free of
        Some f \<Rightarrow> (if val bucket \<noteq> NULL then f (val bucket) w else w)
      | None \<Rightarrow> w)"

text \<open>\<^verbatim>\<open>_hashbucket_apply (bucket, apply_function)\<close>: the loop over one chain.\<close>

fun hashbucket_apply :: "hashbucket_s list \<Rightarrow> (ptr \<Rightarrow> 'w \<Rightarrow> 'w) \<Rightarrow> 'w \<Rightarrow> 'w" where
  "hashbucket_apply [] apply_function w = w"
| "hashbucket_apply (current # nxt) apply_function w =
     hashbucket_apply nxt apply_function (apply_function (val current) w)"

subsection \<open>Construction\<close>

text \<open>
  The loop \<^verbatim>\<open>for (shifts = 0; count > 1; count >>= 1) shifts++;\<close> of \<^verbatim>\<open>hashmap_new\<close>,
  on a \<^verbatim>\<open>uint32_t\<close> count and a \<^verbatim>\<open>uint8_t\<close> shifts.
\<close>

function highest_bit :: "32 word \<Rightarrow> 8 word \<Rightarrow> 8 word" where
  "highest_bit count shifts =
     (if 1 < count then highest_bit (drop_bit 1 count) (shifts + 1) else shifts)"
  by pat_completeness auto
termination
proof (relation "measure (\<lambda>(count, shifts). unat count)")
  show "wf (measure (\<lambda>(count :: 32 word, shifts :: 8 word). unat count))"
    by simp
next
  fix count :: "32 word" and shifts :: "8 word"
  assume "1 < count"
  then have "unat (drop_bit 1 count) < unat count"
    by (simp add: word_less_nat_alt drop_bit_eq_div unat_div)
  then show "((drop_bit 1 count, shifts + 1), (count, shifts))
      \<in> measure (\<lambda>(count, shifts). unat count)"
    by simp
qed

declare highest_bit.simps [simp del]

text \<open>
  \<^verbatim>\<open>hashmap_new (bucketcount, hashmap_hash_function, value_clone_function,
  value_free_function)\<close>; the parameter \<^verbatim>\<open>bucketcount\<close> is \<open>requested\<close> here. The literal
  \<^verbatim>\<open>1\<close> of \<^verbatim>\<open>1 << (shifts + 1)\<close> is a 32-bit \<^verbatim>\<open>int\<close>; its difference with
  \<^verbatim>\<open>bucketcount\<close> is taken in \<^verbatim>\<open>uint32_t\<close>, where it wraps. A shift by 31 is read as
  the bit pattern of \<open>2 ^ 31\<close>, which is what the conversion to \<^verbatim>\<open>uint32_t\<close> yields on
  two's-complement machines; a shift by 32 or more has no result that compilers agree
  on and is a fault.
\<close>

definition hashmap_new ::
  "bool \<times> bool \<Rightarrow> 32 word \<Rightarrow> (byte list \<Rightarrow> nat \<Rightarrow> 32 word) option
    \<Rightarrow> (ptr \<Rightarrow> 'w \<Rightarrow> ptr \<times> 'w) option \<Rightarrow> (ptr \<Rightarrow> 'w \<Rightarrow> 'w) option
    \<Rightarrow> fault + 'w hashmap_s option" where
  "hashmap_new mem requested hash_function clone free =
     (case hash_function of
        None \<Rightarrow> Inr None
      | Some hf \<Rightarrow>
          if requested < 1 then Inr None
          else if \<not> fst mem then Inr None
          else
            (let shifts = highest_bit requested 0 in
             if 32 \<le> unat shifts + 1 then Inl ShiftOverflow
             else
               (let shifts' =
                  (if push_bit (unat shifts + 1) 1 - requested
                        < requested - push_bit (unat shifts) 1
                   then shifts + 1 else shifts) in
                if 32 \<le> unat shifts' then Inl ShiftOverflow
                else
                  (let count = push_bit (unat shifts') (1 :: 32 word) in
                   if \<not> snd mem then Inr None
                   else Inr (Some \<lparr>bucketcount = count,
                                   buckets = replicate (unat count) [],
                                   hashmask = count - 1,
                                   hashmap_hash_function = hf,
                                   value_free_function = free,
                                   value_clone_function = clone\<rparr>)))))"

subsection \<open>Walking a chain\<close>

text \<open>
  The loop that \<^verbatim>\<open>_hashmap_hashbucket_insert_at\<close>, \<^verbatim>\<open>hashmap_get\<close> and
  \<^verbatim>\<open>hashmap_remove\<close> each write out:
  \<^verbatim>\<open>while (iterator != NULL && memcmp (iterator->key, key, key_size) != 0)
    { previous = iterator; iterator = iterator->next; }\<close>.
  The result is the state at the exit of the loop: the entries passed, and the rest of
  the chain from \<^verbatim>\<open>iterator\<close> on (empty when \<^verbatim>\<open>iterator\<close> is null).
\<close>

fun chain_walk ::
  "hashbucket_s list \<Rightarrow> hashbucket_s list \<Rightarrow> byte list \<Rightarrow> nat
    \<Rightarrow> fault + (hashbucket_s list \<times> hashbucket_s list)" where
  "chain_walk previous [] k n = Inr (previous, [])"
| "chain_walk previous (iterator # nxt) k n =
     (case memcmp (key iterator) k n of
        Inl f \<Rightarrow> Inl f
      | Inr d \<Rightarrow>
          if d \<noteq> 0 then chain_walk (previous @ [iterator]) nxt k n
          else Inr (previous, iterator # nxt))"

subsection \<open>Insertion\<close>

text \<open>\<^verbatim>\<open>_hashmap_hashbucket_insert_at (map, newbucket, index)\<close>.\<close>

definition hashmap_hashbucket_insert_at ::
  "'w hashmap_s \<Rightarrow> hashbucket_s \<Rightarrow> 32 word \<Rightarrow> fault + (bool \<times> 'w hashmap_s)" where
  "hashmap_hashbucket_insert_at hmap newbucket idx =
     (if length (buckets hmap) \<le> unat idx then Inl OutOfBoundsRead
      else if buckets hmap ! unat idx = [] then
        Inr (True, hmap\<lparr>buckets := (buckets hmap)[unat idx := [newbucket]]\<rparr>)
      else
        (case chain_walk [] (buckets hmap ! unat idx) (key newbucket)
                (unat (key_size newbucket)) of
           Inl f \<Rightarrow> Inl f
         | Inr (previous, []) \<Rightarrow>
             Inr (True, hmap\<lparr>buckets := (buckets hmap)[unat idx := previous @ [newbucket]]\<rparr>)
         | Inr (previous, iterator # nxt) \<Rightarrow> Inr (False, hmap)))"

text \<open>
  \<^verbatim>\<open>hashmap_add (map, key, key_size, value)\<close>. The \<^verbatim>\<open>size_t key_size\<close> is converted to
  the \<^verbatim>\<open>uint8_t\<close> parameter of \<^verbatim>\<open>_hashbucket_new\<close>; the hash function gets it in full.
\<close>

definition hashmap_add ::
  "bool \<times> bool \<Rightarrow> 'w hashmap_s option \<Rightarrow> byte list option \<Rightarrow> nat \<Rightarrow> ptr \<Rightarrow> 'w
    \<Rightarrow> fault + (bool \<times> 'w hashmap_s option \<times> 'w)" where
  "hashmap_add mem hmap kp ksize v w =
     (case hmap of
        None \<Rightarrow> Inr (False, hmap, w)
      | Some m \<Rightarrow>
          (case kp of
             None \<Rightarrow> Inr (False, hmap, w)
           | Some k \<Rightarrow>
               if ksize = 0 then Inr (False, hmap, w)
               else
                 (case hashbucket_new mem k (of_nat ksize) v (value_clone_function m) w of
                    Inl f \<Rightarrow> Inl f
                  | Inr (None, w') \<Rightarrow> Inr (False, hmap, w')
                  | Inr (Some newbucket, w') \<Rightarrow>
                      (case hashmap_hashbucket_insert_at m newbucket
                              (hashmap_hash_function m k ksize AND hashmask m) of
                         Inl f \<Rightarrow> Inl f
                       | Inr (True, m') \<Rightarrow> Inr (True, Some m', w')
                       | Inr (False, m') \<Rightarrow>
                           Inr (False, Some m',
                                hashbucket_free newbucket (value_free_function m) w')))))"

subsection \<open>Lookup\<close>

text \<open>\<^verbatim>\<open>hashmap_get (map, key, key_size)\<close>.\<close>

definition hashmap_get ::
  "'w hashmap_s option \<Rightarrow> byte list option \<Rightarrow> nat \<Rightarrow> fault + ptr" where
  "hashmap_get hmap kp ksize =
     (case hmap of
        None \<Rightarrow> Inr NULL
      | Some m \<Rightarrow>
          (case kp of
             None \<Rightarrow> Inr NULL
           | Some k \<Rightarrow>
               if ksize = 0 then Inr NULL
               else
                 (let hash = hashmap_hash_function m k ksize AND hashmask m in
                  if bucketcount m \<le> hash then Inr NULL
                  else if length (buckets m) \<le> unat hash then Inl OutOfBoundsRead
                  else if buckets m ! unat hash = [] then Inr NULL
                  else
                    (case chain_walk [] (buckets m ! unat hash) k ksize of
                       Inl f \<Rightarrow> Inl f
                     | Inr (previous, []) \<Rightarrow> Inr NULL
                     | Inr (previous, iterator # nxt) \<Rightarrow> Inr (val iterator)))))"

subsection \<open>Removal\<close>

text \<open>\<^verbatim>\<open>hashmap_remove (map, key, key_size)\<close>.\<close>

definition hashmap_remove ::
  "'w hashmap_s option \<Rightarrow> byte list option \<Rightarrow> nat \<Rightarrow> 'w
    \<Rightarrow> fault + (bool \<times> 'w hashmap_s option \<times> 'w)" where
  "hashmap_remove hmap kp ksize w =
     (case hmap of
        None \<Rightarrow> Inr (False, hmap, w)
      | Some m \<Rightarrow>
          (case kp of
             None \<Rightarrow> Inr (False, hmap, w)
           | Some k \<Rightarrow>
               if ksize = 0 then Inr (False, hmap, w)
               else
                 (let hash = hashmap_hash_function m k ksize AND hashmask m in
                  if bucketcount m \<le> hash then Inr (False, hmap, w)
                  else if length (buckets m) \<le> unat hash then Inl OutOfBoundsRead
                  else if buckets m ! unat hash = [] then Inr (False, hmap, w)
                  else
                    (case chain_walk [] (buckets m ! unat hash) k ksize of
                       Inl f \<Rightarrow> Inl f
                     | Inr (previous, []) \<Rightarrow> Inr (False, hmap, w)
                     | Inr (previous, iterator # nxt) \<Rightarrow>
                         Inr (True,
                              Some (m\<lparr>buckets := (buckets m)[unat hash := previous @ nxt]\<rparr>),
                              hashbucket_free iterator (value_free_function m) w)))))"

subsection \<open>Traversal\<close>

text \<open>
  The loop \<^verbatim>\<open>for (i = 0; i < map->bucketcount; i++)\<close> of \<^verbatim>\<open>hashmap_apply\<close>, from
  index \<open>i\<close> on.
\<close>

function hashmap_apply_from ::
  "'w hashmap_s \<Rightarrow> (ptr \<Rightarrow> 'u \<Rightarrow> 'u) \<Rightarrow> 32 word \<Rightarrow> 'u \<Rightarrow> fault + 'u" where
  "hashmap_apply_from m apply_function i w =
     (if i < bucketcount m then
        (if length (buckets m) \<le> unat i then Inl OutOfBoundsRead
         else hashmap_apply_from m apply_function (i + 1)
                (hashbucket_apply (buckets m ! unat i) apply_function w))
      else Inr w)"
  by pat_completeness auto
termination
proof (relation "measure (\<lambda>(m, f, i, w). unat (bucketcount m) - unat i)")
  show "wf (measure (\<lambda>(m :: 'w hashmap_s, f :: ptr \<Rightarrow> 'u \<Rightarrow> 'u, i :: 32 word, w :: 'u).
      unat (bucketcount m) - unat i))"
    by simp
next
  fix m :: "'w hashmap_s" and apply_function :: "ptr \<Rightarrow> 'u \<Rightarrow> 'u"
    and i :: "32 word" and w :: 'u
  assume "i < bucketcount m"
  then have less: "unat i < unat (bucketcount m)"
    by (simp add: word_less_nat_alt)
  have "unat (bucketcount m) < 2 ^ 32"
    using unsigned_less [of "bucketcount m"] by simp
  with less have "unat i + 1 < 2 ^ 32"
    by simp
  then have "unat (i + 1) = unat i + 1"
    by (simp add: unat_word_ariths)
  with less show "((m, apply_function, i + 1,
        hashbucket_apply (buckets m ! unat i) apply_function w),
       (m, apply_function, i, w))
      \<in> measure (\<lambda>(m, f, i, w). unat (bucketcount m) - unat i)"
    by simp
qed

declare hashmap_apply_from.simps [simp del]

text \<open>
  \<^verbatim>\<open>hashmap_apply (map, apply_function)\<close>. The applied function is no capability of
  the map: the state \<open>'u\<close> it acts on may be of another type than the \<open>'w\<close> of the
  clone and free functions.
\<close>

definition hashmap_apply ::
  "'w hashmap_s option \<Rightarrow> (ptr \<Rightarrow> 'u \<Rightarrow> 'u) option \<Rightarrow> 'u \<Rightarrow> fault + 'u" where
  "hashmap_apply hmap apply_function w =
     (case hmap of
        None \<Rightarrow> Inr w
      | Some m \<Rightarrow>
          (case apply_function of
             None \<Rightarrow> Inr w
           | Some f \<Rightarrow> hashmap_apply_from m f 0 w))"

subsection \<open>The bucket of a key\<close>

text \<open>The index \<^verbatim>\<open>hash_function (key, key_size) & map->hashmask\<close> that add, get and remove compute.\<close>

definition bucket_index :: "'w hashmap_s \<Rightarrow> byte list \<Rightarrow> nat \<Rightarrow> nat" where
  "bucket_index m k ksize = unat (hashmap_hash_function m k ksize AND hashmask m)"

subsection \<open>Sequences of operations and the uniqueness of keys\<close>

text \<open>
  A caller's call of \<^verbatim>\<open>hashmap_add\<close> or \<^verbatim>\<open>hashmap_remove\<close>, with its arguments (for
  an insertion, the outcome of its allocations first).
\<close>

datatype operation =
  Add "bool \<times> bool" "byte list option" nat ptr
| Remove "byte list option" nat

text \<open>Running a sequence of calls on one map; the first fault ends the run.\<close>

fun run_operations ::
  "'w hashmap_s option \<Rightarrow> operation list \<Rightarrow> 'w \<Rightarrow> fault + ('w hashmap_s option \<times> 'w)" where
  "run_operations hmap [] w = Inr (hmap, w)"
| "run_operations hmap (Add mem kp ksize v # ops) w =
     (case hashmap_add mem hmap kp ksize v w of
        Inl f \<Rightarrow> Inl f
      | Inr (ok, hmap', w') \<Rightarrow> run_operations hmap' ops w')"
| "run_operations hmap (Remove kp ksize # ops) w =
     (case hashmap_remove hmap kp ksize w of
        Inl f \<Rightarrow> Inl f
      | Inr (ok, hmap', w') \<Rightarrow> run_operations hmap' ops w')"

text \<open>No two entries of a chain have the same key bytes and key size.\<close>

definition chain_keys_distinct :: "hashbucket_s list \<Rightarrow> bool" where
  "chain_keys_distinct chain = distinct (map (\<lambda>b. (key b, key_size b)) chain)"

definition keys_unique :: "'w hashmap_s \<Rightarrow> bool" where
  "keys_unique m = list_all chain_keys_distinct (buckets m)"

subsection \<open>Keys present in a map\<close>

text \<open>
  Two byte strings are prefix-related when one is a prefix of the other: they agree on
  the length of the shorter. A chain is prefix-free when no two of its keys are; a map
  is, when its bucket array has \<open>bucketcount\<close> slots and every chain is prefix-free. A key
  is present when the chain of its bucket holds an entry with exactly its bytes and its
  size.
\<close>

definition prefix_related :: "byte list \<Rightarrow> byte list \<Rightarrow> bool" where
  "prefix_related s1 s2 =
     (take (min (length s1) (length s2)) s1 = take (min (length s1) (length s2)) s2)"

definition chain_prefix_free :: "hashbucket_s list \<Rightarrow> bool" where
  "chain_prefix_free chain = sorted_wrt (\<lambda>a b. \<not> prefix_related (key a) (key b)) chain"

definition prefix_free :: "'w hashmap_s \<Rightarrow> bool" where
  "prefix_free m =
     (length (buckets m) = unat (bucketcount m) \<and> list_all chain_prefix_free (buckets m))"

definition key_present :: "'w hashmap_s \<Rightarrow> byte list \<Rightarrow> nat \<Rightarrow> bool" where
  "key_present m k ksize =
     (ksize \<le> length k \<and> bucket_index m k ksize < length (buckets m)
      \<and> list_ex (\<lambda>e. key e = take ksize k \<and> unat (key_size e) = ksize)
           (buckets m ! bucket_index m k ksize))"

subsection \<open>Keys of one size\<close>

text \<open>
  The common use of the map: every call passes keys of one size \<open>n\<close>, with at least
  \<open>n\<close> bytes behind the key pointer. \<open>keys_sized n\<close> is the shape of the maps such calls
  build: the bucket array has \<open>bucketcount\<close> slots, a power of two, the mask is one less,
  and every stored key has \<open>n\<close> bytes.
\<close>

definition sized_operation :: "nat \<Rightarrow> operation \<Rightarrow> bool" where
  "sized_operation n op =
     (case op of
        Add mem kp ksize v \<Rightarrow>
          ksize = n \<and> (case kp of None \<Rightarrow> True | Some k \<Rightarrow> n \<le> length k)
      | Remove kp ksize \<Rightarrow>
          ksize = n \<and> (case kp of None \<Rightarrow> True | Some k \<Rightarrow> n \<le> length k))"

definition keys_sized :: "nat \<Rightarrow> 'w hashmap_s \<Rightarrow> bool" where
  "keys_sized n m =
     (length (buckets m) = unat (bucketcount m)
      \<and> (\<exists>s<32. bucketcount m = 2 ^ s \<and> hashmask m = 2 ^ s - 1)
      \<and> list_all (list_all (\<lambda>e. length (key e) = n)) (buckets m))"

subsection \<open>Reads past the end of a key buffer\<close>

text \<open>
  The loops pass the size of the key looked for to \<^verbatim>\<open>memcmp\<close>, never the size of the
  stored key, so a stored key that is shorter is read past its end; \<^verbatim>\<open>memcpy\<close> and
  \<^verbatim>\<open>memcmp\<close> do the same to a caller's buffer that is shorter than the size passed with
  it. The operations above end there with a fault. A compiled program does not: the
  library function reads the bytes that lie in memory behind the buffer, whatever they
  are, and the loop goes on with the outcome. The definitions of this section are the
  same source lines under this reading. What lies behind a buffer is a parameter of
  each call, one byte for each offset past the end of the buffer, and nothing is assumed
  about it. (A read that leaves the memory of the process altogether ends the process,
  and no map is left to speak about.)
\<close>

type_synonym memory = "nat \<Rightarrow> byte"

text \<open>The \<open>n\<close> bytes read from the start of a buffer, with what lies behind it.\<close>

fun read_bytes :: "byte list \<Rightarrow> memory \<Rightarrow> nat \<Rightarrow> byte list" where
  "read_bytes s behind 0 = []"
| "read_bytes [] behind (Suc n) = behind 0 # read_bytes [] (\<lambda>i. behind (Suc i)) n"
| "read_bytes (a # s) behind (Suc n) = a # read_bytes s behind n"

text \<open>
  The memory around one call: what lies behind the key buffer of the caller, and what
  lies behind the key copy of the entry at each position of the chain that is walked.
\<close>

record surroundings =
  behind_key :: memory
  behind_entry :: "nat \<Rightarrow> memory"

text \<open>
  \<^verbatim>\<open>_hashbucket_new\<close>, where \<^verbatim>\<open>memcpy (newbucket->key, key, key_size)\<close> copies the
  \<^verbatim>\<open>key_size\<close> bytes it finds from the key pointer on.
\<close>

definition hashbucket_new_past ::
  "memory \<Rightarrow> bool \<times> bool \<Rightarrow> byte list \<Rightarrow> 8 word \<Rightarrow> ptr \<Rightarrow> (ptr \<Rightarrow> 'w \<Rightarrow> ptr \<times> 'w) option \<Rightarrow> 'w
    \<Rightarrow> hashbucket_s option \<times> 'w" where
  "hashbucket_new_past behind mem k ksize v clone w =
     (if \<not> fst mem then (None, w)
      else if \<not> snd mem then (None, w)
      else
        (let copy = read_bytes k behind (unat ksize) in
         case clone of
           Some c \<Rightarrow>
             (case c v w of
                (v', w') \<Rightarrow> (Some \<lparr>key = copy, key_size = ksize, val = v'\<rparr>, w'))
         | None \<Rightarrow> (Some \<lparr>key = copy, key_size = ksize, val = v\<rparr>, w)))"

text \<open>
  The loop of \<open>chain_walk\<close>, where \<^verbatim>\<open>memcmp (iterator->key, key, key_size)\<close> compares
  the \<open>n\<close> bytes it finds from \<^verbatim>\<open>iterator->key\<close> on. The position of \<^verbatim>\<open>iterator\<close> in
  the chain is the number of entries passed. The second buffer \<open>k\<close> is given as the bytes
  read from it.
\<close>

fun chain_walk_past ::
  "(nat \<Rightarrow> memory) \<Rightarrow> hashbucket_s list \<Rightarrow> hashbucket_s list \<Rightarrow> byte list \<Rightarrow> nat
    \<Rightarrow> fault + (hashbucket_s list \<times> hashbucket_s list)" where
  "chain_walk_past behind previous [] k n = Inr (previous, [])"
| "chain_walk_past behind previous (iterator # nxt) k n =
     (case memcmp (read_bytes (key iterator) (behind (length previous)) n) k n of
        Inl f \<Rightarrow> Inl f
      | Inr d \<Rightarrow>
          if d \<noteq> 0 then chain_walk_past behind (previous @ [iterator]) nxt k n
          else Inr (previous, iterator # nxt))"

text \<open>\<^verbatim>\<open>_hashmap_hashbucket_insert_at\<close> with this loop.\<close>

definition hashmap_hashbucket_insert_at_past ::
  "(nat \<Rightarrow> memory) \<Rightarrow> 'w hashmap_s \<Rightarrow> hashbucket_s \<Rightarrow> 32 word
    \<Rightarrow> fault + (bool \<times> 'w hashmap_s)" where
  "hashmap_hashbucket_insert_at_past behind hmap newbucket idx =
     (if length (buckets hmap) \<le> unat idx then Inl OutOfBoundsRead
      else if buckets hmap ! unat idx = [] then
        Inr (True, hmap\<lparr>buckets := (buckets hmap)[unat idx := [newbucket]]\<rparr>)
      else
        (case chain_walk_past behind [] (buckets hmap ! unat idx) (key newbucket)
                (unat (key_size newbucket)) of
           Inl f \<Rightarrow> Inl f
         | Inr (previous, []) \<Rightarrow>
             Inr (True, hmap\<lparr>buckets := (buckets hmap)[unat idx := previous @ [newbucket]]\<rparr>)
         | Inr (previous, iterator # nxt) \<Rightarrow> Inr (False, hmap)))"

text \<open>\<^verbatim>\<open>hashmap_add\<close> with the memory around the call.\<close>

definition hashmap_add_past ::
  "surroundings \<Rightarrow> bool \<times> bool \<Rightarrow> 'w hashmap_s option \<Rightarrow> byte list option \<Rightarrow> nat \<Rightarrow> ptr \<Rightarrow> 'w
    \<Rightarrow> fault + (bool \<times> 'w hashmap_s option \<times> 'w)" where
  "hashmap_add_past around mem hmap kp ksize v w =
     (case hmap of
        None \<Rightarrow> Inr (False, hmap, w)
      | Some m \<Rightarrow>
          (case kp of
             None \<Rightarrow> Inr (False, hmap, w)
           | Some k \<Rightarrow>
               if ksize = 0 then Inr (False, hmap, w)
               else
                 (case hashbucket_new_past (behind_key around) mem k (of_nat ksize) v
                         (value_clone_function m) w of
                    (None, w') \<Rightarrow> Inr (False, hmap, w')
                  | (Some newbucket, w') \<Rightarrow>
                      (case hashmap_hashbucket_insert_at_past (behind_entry around) m newbucket
                              (hashmap_hash_function m k ksize AND hashmask m) of
                         Inl f \<Rightarrow> Inl f
                       | Inr (True, m') \<Rightarrow> Inr (True, Some m', w')
                       | Inr (False, m') \<Rightarrow>
                           Inr (False, Some m',
                                hashbucket_free newbucket (value_free_function m) w')))))"

text \<open>\<^verbatim>\<open>hashmap_remove\<close> with the memory around the call.\<close>

definition hashmap_remove_past ::
  "surroundings \<Rightarrow> 'w hashmap_s option \<Rightarrow> byte list option \<Rightarrow> nat \<Rightarrow> 'w
    \<Rightarrow> fault + (bool \<times> 'w hashmap_s option \<times> 'w)" where
  "hashmap_remove_past around hmap kp ksize w =
     (case hmap of
        None \<Rightarrow> Inr (False, hmap, w)
      | Some m \<Rightarrow>
          (case kp of
             None \<Rightarrow> Inr (False, hmap, w)
           | Some k \<Rightarrow>
               if ksize = 0 then Inr (False, hmap, w)
               else
                 (let hash = hashmap_hash_function m k ksize AND hashmask m in
                  if bucketcount m \<le> hash then Inr (False, hmap, w)
                  else if length (buckets m) \<le> unat hash then Inl OutOfBoundsRead
                  else if buckets m ! unat hash = [] then Inr (False, hmap, w)
                  else
                    (case chain_walk_past (behind_entry around) [] (buckets m ! unat hash)
                            (read_bytes k (behind_key around) ksize) ksize of
                       Inl f \<Rightarrow> Inl f
                     | Inr (previous, []) \<Rightarrow> Inr (False, hmap, w)
                     | Inr (previous, iterator # nxt) \<Rightarrow>
                         Inr (True,
                              Some (m\<lparr>buckets := (buckets m)[unat hash := previous @ nxt]\<rparr>),
                              hashbucket_free iterator (value_free_function m) w)))))"

text \<open>Running a sequence of calls, each with the memory around it.\<close>

fun run_operations_past ::
  "'w hashmap_s option \<Rightarrow> (surroundings \<times> operation) list \<Rightarrow> 'w
    \<Rightarrow> fault + ('w hashmap_s option \<times> 'w)" where
  "run_operations_past hmap [] w = Inr (hmap, w)"
| "run_operations_past hmap ((around, Add mem kp ksize v) # calls) w =
     (case hashmap_add_past around mem hmap kp ksize v w of
        Inl f \<Rightarrow> Inl f
      | Inr (ok, hmap', w') \<Rightarrow> run_operations_past hmap' calls w')"
| "run_operations_past hmap ((around, Remove kp ksize) # calls) w =
     (case hashmap_remove_past around hmap kp ksize w of
        Inl f \<Rightarrow> Inl f
      | Inr (ok, hmap', w') \<Rightarrow> run_operations_past hmap' calls w')"

text \<open>
  The shape of the table that \<open>hashmap_new\<close> allocates: \<open>bucketcount\<close> slots, a power of
  two, and the mask one less.
\<close>

definition table_shaped :: "'w hashmap_s \<Rightarrow> bool" where
  "table_shaped m =
     (length (buckets m) = unat (bucketcount m)
      \<and> (\<exists>s<32. bucketcount m = 2 ^ s \<and> hashmask m = 2 ^ s - 1))"

subsection \<open>Concrete inputs\<close>

text \<open>
  A hash function to run the code on: the first byte of the key. With a one-bucket map
  the mask is zero and every key falls into bucket 0, whatever the hash function.
\<close>

definition hash_first_byte :: "byte list \<Rightarrow> nat \<Rightarrow> 32 word" where
  "hash_first_byte k ksize = (case k of [] \<Rightarrow> 0 | b # rest \<Rightarrow> ucast b)"

text \<open>
  A caller function that logs the values it is called with, in the order of the calls.
  It serves as free function and as applied function; the caller's state is the log.
\<close>

definition record_call :: "ptr \<Rightarrow> ptr list \<Rightarrow> ptr list" where
  "record_call v calls = calls @ [v]"

text \<open>
  The maps that \<open>hashmap_new\<close> builds for requested counts of 1 and of 3, with no clone
  and no free function, and the one-bucket map with \<open>record_call\<close> as its free function.
\<close>

definition one_bucket :: "ptr list hashmap_s" where
  "one_bucket =
     \<lparr>bucketcount = 1, buckets = [[]], hashmask = 0,
      hashmap_hash_function = hash_first_byte,
      value_free_function = None, value_clone_function = None\<rparr>"

definition two_buckets :: "ptr list hashmap_s" where
  "two_buckets =
     \<lparr>bucketcount = 2, buckets = [[], []], hashmask = 1,
      hashmap_hash_function = hash_first_byte,
      value_free_function = None, value_clone_function = None\<rparr>"

definition one_bucket_freeing :: "ptr list hashmap_s" where
  "one_bucket_freeing = one_bucket\<lparr>value_free_function := Some record_call\<rparr>"

text \<open>
  Keys: the ASCII strings \<^verbatim>\<open>a\<close>, \<^verbatim>\<open>ab\<close> and \<^verbatim>\<open>abc\<close>, and a key of 257 bytes, an
  \<^verbatim>\<open>a\<close> followed by 256 \<^verbatim>\<open>b\<close>.
\<close>

definition key_a :: "byte list" where
  "key_a = [97]"

definition key_ab :: "byte list" where
  "key_ab = [97, 98]"

definition key_abc :: "byte list" where
  "key_abc = [97, 98, 99]"

definition long_key :: "byte list" where
  "long_key = 97 # replicate 256 98"

text \<open>The entry that \<open>hashmap_add\<close> builds for a key of at most 255 bytes, without a clone function.\<close>

definition entry :: "byte list \<Rightarrow> ptr \<Rightarrow> hashbucket_s" where
  "entry k v = \<lparr>key = k, key_size = of_nat (length k), val = v\<rparr>"

text \<open>
  The two-bucket map after the keys \<open>[1]\<close>, \<open>[2]\<close> and \<open>[3]\<close> were added in this order
  with the values 11, 12 and 13: the odd keys share bucket 1.
\<close>

definition three_entries :: "ptr list hashmap_s" where
  "three_entries =
     two_buckets\<lparr>buckets := [[entry [2] 12], [entry [1] 11, entry [3] 13]]\<rparr>"

text \<open>One-bucket maps holding a single entry.\<close>

definition a_stored :: "ptr list hashmap_s" where
  "a_stored = one_bucket\<lparr>buckets := [[entry key_a 7]]\<rparr>"

definition ab_stored :: "ptr list hashmap_s" where
  "ab_stored = one_bucket\<lparr>buckets := [[entry key_ab 7]]\<rparr>"

definition abc_stored :: "ptr list hashmap_s" where
  "abc_stored = one_bucket\<lparr>buckets := [[entry key_abc 7]]\<rparr>"

definition a_stored_freeing :: "ptr list hashmap_s" where
  "a_stored_freeing = one_bucket_freeing\<lparr>buckets := [[entry key_a 7]]\<rparr>"

text \<open>
  Memory behind the buffers: all bytes zero, and all bytes an ASCII \<^verbatim>\<open>b\<close> behind the
  key copies of a chain.
\<close>

definition zero_memory :: memory where
  "zero_memory i = 0"

definition b_memory :: memory where
  "b_memory i = 98"

definition zeros_behind :: surroundings where
  "zeros_behind = \<lparr>behind_key = zero_memory, behind_entry = (\<lambda>position. zero_memory)\<rparr>"

definition b_behind :: surroundings where
  "b_behind = \<lparr>behind_key = zero_memory, behind_entry = (\<lambda>position. b_memory)\<rparr>"

section \<open>Properties\<close>

subsection \<open>Running the code on concrete inputs\<close>

text \<open>Evaluating \<open>memcmp\<close> on a size written as a numeral.\<close>

lemma memcmp_numeral:
  "memcmp (a # s1) (b # s2) (numeral n) =
     (if a = b then memcmp s1 s2 (pred_numeral n) else Inr (uint a - uint b))"
  "memcmp [] s2 (numeral n) = Inl OutOfBoundsRead"
  "memcmp (a # s1) [] (numeral n) = Inl OutOfBoundsRead"
  by (simp_all add: numeral_eq_Suc)

lemmas eval_defs =
  hashmap_add_def hashbucket_new_def memcpy_def hashmap_hashbucket_insert_at_def
  hashmap_get_def hashmap_remove_def hashbucket_free_def hash_first_byte_def Let_def
  memcmp_numeral record_call_def

lemmas input_defs =
  one_bucket_def two_buckets_def one_bucket_freeing_def three_entries_def
  a_stored_def ab_stored_def abc_stored_def a_stored_freeing_def
  key_a_def key_ab_def key_abc_def long_key_def entry_def

lemma one_bucket_built:
  "hashmap_new (True, True) 1 (Some hash_first_byte) None None = Inr (Some one_bucket)"
  by (simp add: hashmap_new_def highest_bit.simps Let_def one_bucket_def)

lemma one_bucket_freeing_built:
  "hashmap_new (True, True) 1 (Some hash_first_byte) None (Some record_call)
     = Inr (Some one_bucket_freeing)"
  by (simp add: hashmap_new_def highest_bit.simps Let_def one_bucket_freeing_def
      one_bucket_def)

lemma a_stored_freeing_built:
  "hashmap_add (True, True) (Some one_bucket_freeing) (Some key_a) 1 7 []
     = Inr (True, Some a_stored_freeing, [])"
  by (simp add: eval_defs input_defs)

lemma three_entries_built:
  "run_operations (Some two_buckets)
     [Add (True, True) (Some [1]) 1 11, Add (True, True) (Some [2]) 1 12,
      Add (True, True) (Some [3]) 1 13] [] = Inr (Some three_entries, [])"
  by (simp add: eval_defs input_defs)

subsection \<open>Sizing\<close>

text \<open>The loop of \<open>hashmap_new\<close> finds the position of the highest set bit.\<close>

lemma highest_bit_spec:
  "0 < count \<Longrightarrow> unat count < 2 ^ k \<Longrightarrow> unat shifts + k \<le> 256 \<Longrightarrow>
   \<exists>e<k. unat (highest_bit count shifts) = unat shifts + e
      \<and> 2 ^ e \<le> unat count \<and> unat count < 2 ^ Suc e"
proof (induction count shifts arbitrary: k rule: highest_bit.induct)
  case (1 count shifts)
  show ?case
  proof (cases "1 < count")
    case True
    then have n2: "2 \<le> unat count"
      by (simp add: word_less_nat_alt)
    have half: "unat (drop_bit 1 count) = unat count div 2"
      by (simp add: drop_bit_eq_div unat_div)
    have "k = 0 \<or> k = Suc 0 \<Longrightarrow> (2::nat) ^ k \<le> 2"
      by auto
    with n2 "1.prems"(2) have "k \<noteq> 0" "k \<noteq> Suc 0"
      by fastforce+
    then obtain k' where k: "k = Suc k'" "0 < k'"
      by (cases k) auto
    have pos: "0 < drop_bit 1 count"
      using n2 half by (simp add: word_greater_zero_iff unat_eq_0 [symmetric] del: unat_eq_0)
    have bound: "unat (drop_bit 1 count) < 2 ^ k'"
      using "1.prems"(2) k half by simp
    have sh: "unat (shifts + 1) = unat shifts + 1"
      using "1.prems"(3) k by (simp add: unat_word_ariths)
    then have room: "unat (shifts + 1) + k' \<le> 256"
      using "1.prems"(3) k by simp
    from "1.IH" [OF True pos bound room] obtain e
      where e: "e < k'" "unat (highest_bit (drop_bit 1 count) (shifts + 1)) = unat (shifts + 1) + e"
        "2 ^ e \<le> unat (drop_bit 1 count)" "unat (drop_bit 1 count) < 2 ^ Suc e"
      by blast
    have "highest_bit count shifts = highest_bit (drop_bit 1 count) (shifts + 1)"
      using True by (subst highest_bit.simps) simp
    with e sh half k show ?thesis
      by (intro exI [of _ "Suc e"]) (auto simp: )
  next
    case False
    with "1.prems"(1) have "unat count = 1"
      by (simp add: word_less_nat_alt word_greater_zero_iff unat_eq_0 [symmetric] del: unat_eq_0) 
    moreover have "highest_bit count shifts = shifts"
      using False by (subst highest_bit.simps) simp
    moreover have "0 < k"
      using "1.prems"(2) \<open>unat count = 1\<close> by (cases k) auto
    ultimately show ?thesis
      by (intro exI [of _ 0]) simp
  qed
qed

lemma nearest_power_arith:
  fixes n :: int
  assumes lo: "2 ^ e \<le> n" and hi: "n < 2 ^ Suc e"
    and s: "s = (if 2 ^ Suc e - n < n - 2 ^ e then Suc e else e)"
  shows "\<bar>n - 2 ^ s\<bar> \<le> \<bar>n - 2 ^ j\<bar>"
    and "\<bar>n - 2 ^ j\<bar> = \<bar>n - 2 ^ s\<bar> \<Longrightarrow> s \<le> j"
proof -
  define A B P :: int where "A = 2 ^ e" and "B = 2 ^ Suc e" and "P = 2 ^ j"
  have below: "P \<le> A" if "j \<le> e"
    using that by (simp add: A_def P_def power_increasing)
  have strict: "P < A" if "j < e"
    using that by (simp add: A_def P_def power_strict_increasing)
  have above: "B \<le> P" if "Suc e \<le> j"
    unfolding B_def P_def using that by (intro power_increasing) simp_all
  have bounds: "A \<le> n" "n < B"
    using lo hi by (simp_all add: A_def B_def)
  have chosen: "2 ^ s = (if B - n < n - A then B else A)"
    and up: "s = Suc e \<longleftrightarrow> B - n < n - A"
    and down: "s = e \<longleftrightarrow> \<not> B - n < n - A"
    using s by (simp_all add: A_def B_def)
  have near: "\<bar>n - (if B - n < n - A then B else A)\<bar> \<le> \<bar>n - P\<bar>"
  proof (cases "j \<le> e")
    case True
    from below [OF this] bounds show ?thesis
      by (simp split: if_splits)
  next
    case False
    then have "Suc e \<le> j" by simp
    from above [OF this] bounds show ?thesis
      by (simp split: if_splits)
  qed
  then show "\<bar>n - 2 ^ s\<bar> \<le> \<bar>n - 2 ^ j\<bar>"
    by (simp only: chosen P_def)
  show "s \<le> j" if "\<bar>n - 2 ^ j\<bar> = \<bar>n - 2 ^ s\<bar>"
  proof (rule ccontr)
    assume "\<not> s \<le> j"
    then have less: "j < s" by simp
    from that have tie: "\<bar>n - P\<bar> = \<bar>n - (if B - n < n - A then B else A)\<bar>"
      by (simp only: chosen P_def)
    show False
    proof (cases "B - n < n - A")
      case True
      with up less have "j \<le> e" by simp
      from below [OF this] bounds True tie show False
        by simp
    next
      case False
      with down less have "j < e" by simp
      from strict [OF this] bounds False tie show False
        by simp
    qed
  qed
qed

lemma unat_two_power: "unat ((2::32 word) ^ e) = 2 ^ e" if "e < 32"
proof -
  from that have lt: "(2::nat) ^ e < 2 ^ 32"
    by (intro power_strict_increasing) simp_all
  have "unat (of_nat (2 ^ e) :: 32 word) = 2 ^ e mod 2 ^ LENGTH(32)"
    by (rule unat_of_nat)
  also have "\<dots> = 2 ^ e"
    using lt by simp
  finally show ?thesis
    by simp
qed

text \<open>
  Claim C1, as amended. For every requested count from 1 up to, but not including,
  \<open>2 ^ 31\<close>, with a hash function given and both allocations successful, \<open>hashmap_new\<close>
  returns a map whose \<open>bucketcount\<close> is a power of two \<open>2 ^ s\<close> that is nearest to the
  requested count (no power of two is closer), and on a tie it is the smaller of the two
  (the comparison in the code is strict, so a tie keeps the lower power: 3 gives 2,
  6 gives 4); \<open>hashmask\<close> is \<open>bucketcount - 1\<close>.
\<close>

theorem hashmap_new_bucketcount_nearest:
  fixes requested :: "32 word" and free :: "(ptr \<Rightarrow> 'w \<Rightarrow> 'w) option"
  assumes "1 \<le> requested" and "requested < 2 ^ 31"
  shows "\<exists>m s. hashmap_new (True, True) requested (Some hf) clone free = Inr (Some m)
      \<and> s < 32 \<and> bucketcount m = 2 ^ s
      \<and> hashmask m = bucketcount m - 1
      \<and> (\<forall>j. \<bar>uint requested - 2 ^ s\<bar> \<le> \<bar>uint requested - 2 ^ j\<bar>)
      \<and> (\<forall>j. \<bar>uint requested - 2 ^ j\<bar> = \<bar>uint requested - 2 ^ s\<bar> \<longrightarrow> s \<le> j)"
proof -
  define n where "n = unat requested"
  have pos: "0 < requested" and not_less: "\<not> requested < 1"
    using assms(1) by (simp_all add: word_less_nat_alt word_le_nat_alt)
  have n31: "n < 2 ^ 31"
    using assms(2) by (simp add: n_def word_less_nat_alt)
  from highest_bit_spec [OF pos, of 31 0] n31 obtain e
    where e: "e < 31" "unat (highest_bit requested 0) = e" "2 ^ e \<le> n" "n < 2 ^ Suc e"
    by (auto simp: n_def)
  have unat_hi: "unat ((2::32 word) * 2 ^ e) = 2 ^ Suc e"
    using e(1) unat_two_power [of "Suc e"] by simp
  have unat_lo: "unat ((2::32 word) ^ e) = 2 ^ e"
    using e(1) unat_two_power [of e] by simp
  have "requested \<le> 2 * 2 ^ e" and "2 ^ e \<le> requested"
    using e(3,4) unat_hi unat_lo by (simp_all add: word_le_nat_alt n_def)
  then have cond: "2 * 2 ^ e - requested < requested - 2 ^ e \<longleftrightarrow> 2 ^ Suc e - n < n - 2 ^ e"
    using unat_hi unat_lo by (simp add: word_less_nat_alt unat_sub n_def)
  define s where "s = (if 2 ^ Suc e - n < n - 2 ^ e then Suc e else e)"
  have up: "unat (highest_bit requested 0 + 1) = Suc e"
    using e(1,2) by (simp add: unat_word_ariths)
  have s32: "s < 32"
    using e(1) by (simp add: s_def)
  define m :: "'w hashmap_s" where
    "m = \<lparr>bucketcount = 2 ^ s, buckets = replicate (2 ^ s) [], hashmask = 2 ^ s - 1,
          hashmap_hash_function = hf, value_free_function = free,
          value_clone_function = clone\<rparr>"
  have "hashmap_new (True, True) requested (Some hf) clone free = Inr (Some m)"
  proof (cases "2 ^ Suc e - n < n - 2 ^ e")
    case True
    then have "s = Suc e"
      by (simp add: s_def)
    with True not_less e(1,2) cond up unat_two_power [OF s32] show ?thesis
      by (simp add: hashmap_new_def Let_def m_def)
  next
    case False
    then have "s = e"
      by (simp add: s_def)
    with False not_less e(1,2) cond unat_two_power [OF s32] show ?thesis
      by (simp add: hashmap_new_def Let_def m_def)
  qed
  moreover have "bucketcount m = 2 ^ s" "hashmask m = bucketcount m - 1"
    by (simp_all add: m_def)
  moreover have "uint requested = int n"
    by (simp add: n_def)
  moreover have "int (2 ^ e) \<le> int n" "int n < int (2 ^ Suc e)"
    using e(3,4) by (simp_all only: of_nat_le_iff of_nat_less_iff)
  then have int_bounds: "2 ^ e \<le> int n" "int n < 2 ^ Suc e"
    by simp_all
  moreover have "s = (if 2 ^ Suc e - int n < int n - 2 ^ e then Suc e else e)"
  proof -
    have "int (2 ^ Suc e - n) = 2 ^ Suc e - int n" "int (n - 2 ^ e) = int n - 2 ^ e"
      using e(3,4) by (simp_all add: of_nat_diff)
    then have "2 ^ Suc e - int n < int n - 2 ^ e \<longleftrightarrow> 2 ^ Suc e - n < n - 2 ^ e"
      by (metis of_nat_less_iff)
    then show ?thesis
      by (simp only: s_def)
  qed
  ultimately show ?thesis
    using s32 nearest_power_arith [of e "int n" s] by auto
qed

text \<open>The theorem at a requested count of 6, a tie between 4 and 8.\<close>

theorem hashmap_new_bucketcount_nearest_witness:
  "(1 :: 32 word) \<le> 6 \<and> (6 :: 32 word) < 2 ^ 31
   \<and> (\<exists>m s. hashmap_new (True, True) 6 (Some hash_first_byte) None
               (None :: (ptr \<Rightarrow> ptr list \<Rightarrow> ptr list) option) = Inr (Some m)
      \<and> s < 32 \<and> bucketcount m = 2 ^ s
      \<and> hashmask m = bucketcount m - 1
      \<and> (\<forall>j. \<bar>uint (6 :: 32 word) - 2 ^ s\<bar> \<le> \<bar>uint (6 :: 32 word) - 2 ^ j\<bar>)
      \<and> (\<forall>j. \<bar>uint (6 :: 32 word) - 2 ^ j\<bar> = \<bar>uint (6 :: 32 word) - 2 ^ s\<bar> \<longrightarrow> s \<le> j))"
proof -
  have h1: "(1 :: 32 word) \<le> 6" and h2: "(6 :: 32 word) < 2 ^ 31"
    by simp_all
  from hashmap_new_bucketcount_nearest [OF h1 h2, of hash_first_byte None None] h1 h2
  show ?thesis
    by (intro conjI) assumption+
qed

text \<open>
  Claim C1 as stated fails: it rounds a tie up and gives 4 buckets for a requested count
  of 3. The code gives 2.
\<close>

theorem hashmap_new_three_gives_two:
  "hashmap_new (True, True) 3 (Some hash_first_byte) None None = Inr (Some two_buckets)
   \<and> bucketcount two_buckets = 2 \<and> bucketcount two_buckets \<noteq> 4"
proof -
  have "replicate 2 [] = [[], [] :: hashbucket_s list]"
    by (simp add: numeral_2_eq_2)
  then show ?thesis
    by (simp add: hashmap_new_def highest_bit.simps Let_def two_buckets_def)
qed

text \<open>
  From a requested count of \<open>2 ^ 31\<close> on, the highest set bit is bit 31 and
  \<^verbatim>\<open>1 << (shifts + 1)\<close> shifts by 32.
\<close>

lemma hashmap_new_large_request_faults:
  fixes requested :: "32 word"
  assumes "2 ^ 31 \<le> requested"
  shows "hashmap_new (True, mem2) requested (Some hf) clone free = Inl ShiftOverflow"
proof -
  have n: "2 ^ 31 \<le> unat requested"
    using assms by (simp add: word_le_nat_alt)
  then have pos: "0 < requested" and not_less: "\<not> requested < 1"
    by (simp_all add: word_less_nat_alt)
  have "unat requested < 2 ^ 32"
    using unsigned_less [of requested] by simp
  from highest_bit_spec [OF pos this, of 0] obtain e
    where e: "e < 32" "unat (highest_bit requested 0) = e" "unat requested < 2 ^ Suc e"
    by auto
  have "31 \<le> e"
  proof (rule ccontr)
    assume "\<not> 31 \<le> e"
    then have "Suc e \<le> 31" by simp
    then have "(2::nat) ^ Suc e \<le> 2 ^ 31"
      by (intro power_increasing) simp_all
    with n e(3) show False by simp
  qed
  with e(1,2) have "unat (highest_bit requested 0) = 31"
    by simp
  with not_less show ?thesis
    by (simp add: hashmap_new_def Let_def)
qed

subsection \<open>Traversal\<close>

lemma hashbucket_apply_fold:
  "hashbucket_apply chain f w = fold f (map val chain) w"
  by (induction chain arbitrary: w) simp_all

lemma hashmap_apply_from_fold:
  assumes "length (buckets m) = unat (bucketcount m)"
  shows "hashmap_apply_from m f i w
    = Inr (fold f (map val (concat (drop (unat i) (buckets m)))) w)"
  using assms
proof (induction m f i w rule: hashmap_apply_from.induct)
  case (1 m f i w)
  show ?case
  proof (cases "i < bucketcount m")
    case True
    then have less: "unat i < length (buckets m)"
      using "1.prems" by (simp add: word_less_nat_alt)
    have "unat (bucketcount m) < 2 ^ 32"
      using unsigned_less [of "bucketcount m"] by simp
    with less "1.prems" have "unat i + 1 < 2 ^ 32"
      by simp
    then have next_index: "unat (i + 1) = Suc (unat i)"
      by (simp add: unat_word_ariths)
    have split: "drop (unat i) (buckets m) = buckets m ! unat i # drop (Suc (unat i)) (buckets m)"
      using less by (simp add: Cons_nth_drop_Suc)
    have "hashmap_apply_from m f i w
        = hashmap_apply_from m f (i + 1) (hashbucket_apply (buckets m ! unat i) f w)"
      using True less by (subst hashmap_apply_from.simps) simp
    also have "\<dots> = Inr (fold f (map val (concat (drop (Suc (unat i)) (buckets m))))
        (hashbucket_apply (buckets m ! unat i) f w))"
      using "1.IH" [OF True _ "1.prems"] less by (simp add: next_index)
    finally show ?thesis
      by (simp add: split hashbucket_apply_fold)
  next
    case False
    then have "length (buckets m) \<le> unat i"
      using "1.prems" by (simp add: word_less_nat_alt)
    moreover have "hashmap_apply_from m f i w = Inr w"
      using False by (subst hashmap_apply_from.simps) simp
    ultimately show ?thesis
      by simp
  qed
qed

lemma fold_record_call: "fold record_call vs calls = calls @ vs"
  by (induction vs arbitrary: calls) (simp_all add: record_call_def)

text \<open>
  Claim C7. For a map whose bucket array has \<open>bucketcount\<close> slots, and every function
  \<open>f\<close> acting on a state of the caller's, \<open>hashmap_apply\<close> has the effect of calling
  \<open>f\<close> on the value of each entry of the map, once per entry, bucket by bucket in
  ascending index and along each chain from its head (the order of insertion, since
  \<open>hashmap_add\<close> appends at the tail). For the function that logs its calls, the log is
  the list of the entries' values in that order, so the number of calls is the number of
  entries in the map.
\<close>

theorem hashmap_apply_once_per_entry_in_order:
  assumes "length (buckets m) = unat (bucketcount m)"
  shows "hashmap_apply (Some m) (Some f) w = Inr (fold f (map val (concat (buckets m))) w)
    \<and> hashmap_apply (Some m) (Some record_call) [] = Inr (map val (concat (buckets m)))
    \<and> length (map val (concat (buckets m))) = sum_list (map length (buckets m))"
  using assms
  by (simp add: hashmap_apply_def hashmap_apply_from_fold fold_record_call length_concat)

text \<open>
  The theorem on the map \<open>three_entries\<close>: bucket 0 is visited first, then the two
  entries of bucket 1 in the order they were added.
\<close>

theorem hashmap_apply_once_per_entry_in_order_witness:
  "length (buckets three_entries) = unat (bucketcount three_entries)
   \<and> hashmap_apply (Some three_entries) (Some record_call) [] = Inr [12, 11, 13]
   \<and> sum_list (map length (buckets three_entries)) = 3"
proof -
  have slots: "length (buckets three_entries) = unat (bucketcount three_entries)"
    by (simp add: input_defs)
  from hashmap_apply_once_per_entry_in_order [OF slots, of record_call "[]"] slots
  show ?thesis
    by (simp add: input_defs record_call_def)
qed

subsection \<open>What the operations do to a chain\<close>

lemma memcmp_zero_iff:
  "memcmp s1 s2 n = Inr 0 \<longleftrightarrow> n \<le> length s1 \<and> n \<le> length s2 \<and> take n s1 = take n s2"
  by (induction s1 s2 n rule: memcmp.induct) (auto simp: word_uint_eq_iff)

lemma chain_walk_result:
  assumes "chain_walk previous chain k n = Inr (passed, rest)"
  shows "\<exists>skipped. passed = previous @ skipped \<and> chain = skipped @ rest
    \<and> (\<forall>e \<in> set skipped. \<exists>d. memcmp (key e) k n = Inr d \<and> d \<noteq> 0)
    \<and> (case rest of [] \<Rightarrow> True | iterator # nxt \<Rightarrow> memcmp (key iterator) k n = Inr 0)"
  using assms
proof (induction chain arbitrary: previous)
  case Nil
  then show ?case by simp
next
  case (Cons iterator nxt)
  show ?case
  proof (cases "memcmp (key iterator) k n")
    case (Inl f)
    with Cons.prems show ?thesis by simp
  next
    case (Inr d)
    show ?thesis
    proof (cases "d = 0")
      case True
      with Inr Cons.prems show ?thesis by auto
    next
      case False
      with Inr Cons.prems
      have "chain_walk (previous @ [iterator]) nxt k n = Inr (passed, rest)"
        by simp
      from Cons.IH [OF this] obtain skipped
        where "passed = (previous @ [iterator]) @ skipped" "nxt = skipped @ rest"
          "\<forall>e \<in> set skipped. \<exists>d. memcmp (key e) k n = Inr d \<and> d \<noteq> 0"
          "case rest of [] \<Rightarrow> True | iterator # nxt \<Rightarrow> memcmp (key iterator) k n = Inr 0"
        by blast
      with Inr False show ?thesis
        by (intro exI [of _ "iterator # skipped"]) simp
    qed
  qed
qed

text \<open>Conversely, a chain whose entries all differ from the key is walked to its end.\<close>

lemma chain_walk_all_differ:
  assumes "\<forall>e \<in> set chain. \<exists>d. memcmp (key e) k n = Inr d \<and> d \<noteq> 0"
  shows "chain_walk previous chain k n = Inr (previous @ chain, [])"
  using assms by (induction chain arbitrary: previous) auto

lemma chain_walk_stops:
  assumes "\<forall>e \<in> set skipped. \<exists>d. memcmp (key e) k n = Inr d \<and> d \<noteq> 0"
    and "memcmp (key iterator) k n = Inr 0"
  shows "chain_walk previous (skipped @ iterator # nxt) k n
    = Inr (previous @ skipped, iterator # nxt)"
  using assms by (induction skipped arbitrary: previous) auto

lemma hashbucket_new_result:
  assumes "hashbucket_new mem k ksize v clone w = Inr (Some b, w')"
  shows "key b = take (unat ksize) k" and "unat ksize \<le> length k" and "key_size b = ksize"
    and "val b = (case clone of None \<Rightarrow> v | Some c \<Rightarrow> fst (c v w))"
    and "w' = (case clone of None \<Rightarrow> w | Some c \<Rightarrow> snd (c v w))"
  using assms
  by (auto simp: hashbucket_new_def memcpy_def split: if_splits option.splits prod.splits)

lemma insert_at_accepted:
  assumes "hashmap_hashbucket_insert_at m nb idx = Inr (True, m')"
  shows "unat idx < length (buckets m)
    \<and> m' = m\<lparr>buckets := (buckets m)[unat idx := buckets m ! unat idx @ [nb]]\<rparr>
    \<and> (\<forall>e \<in> set (buckets m ! unat idx).
           \<exists>d. memcmp (key e) (key nb) (unat (key_size nb)) = Inr d \<and> d \<noteq> 0)"
proof -
  have in_range: "unat idx < length (buckets m)"
    using assms by (auto simp: hashmap_hashbucket_insert_at_def split: if_splits)
  show ?thesis
  proof (cases "buckets m ! unat idx = []")
    case True
    with assms in_range show ?thesis
      by (simp add: hashmap_hashbucket_insert_at_def)
  next
    case False
    with assms in_range obtain passed
      where walk: "chain_walk [] (buckets m ! unat idx) (key nb) (unat (key_size nb))
          = Inr (passed, [])"
        and m': "m' = m\<lparr>buckets := (buckets m)[unat idx := passed @ [nb]]\<rparr>"
      by (auto simp: hashmap_hashbucket_insert_at_def
          split: sum.splits prod.splits list.splits)
    from chain_walk_result [OF walk] m' in_range show ?thesis
      by auto
  qed
qed

lemma insert_at_rejected:
  assumes "hashmap_hashbucket_insert_at m nb idx = Inr (False, m')"
  shows "m' = m
    \<and> (\<exists>e \<in> set (buckets m ! unat idx).
          memcmp (key e) (key nb) (unat (key_size nb)) = Inr 0)"
proof -
  from assms obtain passed iterator nxt
    where walk: "chain_walk [] (buckets m ! unat idx) (key nb) (unat (key_size nb))
        = Inr (passed, iterator # nxt)"
      and m': "m' = m"
    by (auto simp: hashmap_hashbucket_insert_at_def
        split: if_splits sum.splits prod.splits list.splits)
  from chain_walk_result [OF walk] m' show ?thesis
    by auto
qed

lemma hashmap_add_accepted:
  assumes "hashmap_add mem (Some m) (Some k) ksize v w = Inr (True, hmap', w')"
  shows "\<exists>b. hashbucket_new mem k (of_nat ksize) v (value_clone_function m) w = Inr (Some b, w')
    \<and> ksize \<noteq> 0
    \<and> bucket_index m k ksize < length (buckets m)
    \<and> hmap' = Some (m\<lparr>buckets := (buckets m)[bucket_index m k ksize :=
            buckets m ! bucket_index m k ksize @ [b]]\<rparr>)
    \<and> (\<forall>e \<in> set (buckets m ! bucket_index m k ksize).
           \<exists>d. memcmp (key e) (key b) (unat (key_size b)) = Inr d \<and> d \<noteq> 0)"
proof -
  from assms have nonzero: "ksize \<noteq> 0"
    by (auto simp: hashmap_add_def split: if_splits)
  with assms obtain b m'
    where new: "hashbucket_new mem k (of_nat ksize) v (value_clone_function m) w
        = Inr (Some b, w')"
      and ins: "hashmap_hashbucket_insert_at m b
        (hashmap_hash_function m k ksize AND hashmask m) = Inr (True, m')"
      and hmap': "hmap' = Some m'"
    by (auto simp: hashmap_add_def split: sum.splits prod.splits option.splits bool.splits)
  from insert_at_accepted [OF ins] new nonzero hmap' show ?thesis
    by (auto simp: bucket_index_def)
qed

lemma hashmap_add_rejected:
  assumes "hashmap_add mem hmap kp ksize v w = Inr (False, hmap', w')"
  shows "hmap' = hmap"
  using assms
  by (auto simp: hashmap_add_def dest: insert_at_rejected
      split: if_splits sum.splits prod.splits option.splits bool.splits)


lemma hashmap_remove_result:
  assumes "hashmap_remove (Some m) kp ksize w = Inr (ok, hmap', w')"
  shows "if ok then
      (\<exists>k skipped iterator nxt. kp = Some k \<and> ksize \<noteq> 0
        \<and> bucket_index m k ksize < length (buckets m)
        \<and> buckets m ! bucket_index m k ksize = skipped @ iterator # nxt
        \<and> (\<forall>e \<in> set skipped. \<exists>d. memcmp (key e) k ksize = Inr d \<and> d \<noteq> 0)
        \<and> memcmp (key iterator) k ksize = Inr 0
        \<and> hmap' = Some (m\<lparr>buckets := (buckets m)[bucket_index m k ksize := skipped @ nxt]\<rparr>)
        \<and> w' = hashbucket_free iterator (value_free_function m) w)
    else hmap' = Some m \<and> w' = w"
proof (cases ok)
  case False
  with assms show ?thesis
    by (auto simp: hashmap_remove_def Let_def
        split: option.splits if_splits sum.splits prod.splits list.splits)
next
  case True
  with assms obtain k where kp: "kp = Some k" and nonzero: "ksize \<noteq> 0"
    by (auto simp: hashmap_remove_def split: option.splits if_splits)
  define i where "i = bucket_index m k ksize"
  from assms True kp nonzero have in_range: "i < length (buckets m)"
    by (auto simp: hashmap_remove_def Let_def i_def bucket_index_def
        split: if_splits)
  from assms True kp nonzero in_range obtain passed iterator nxt
    where walk: "chain_walk [] (buckets m ! i) k ksize = Inr (passed, iterator # nxt)"
      and hmap': "hmap' = Some (m\<lparr>buckets := (buckets m)[i := passed @ nxt]\<rparr>)"
      and w': "w' = hashbucket_free iterator (value_free_function m) w"
    by (auto simp: hashmap_remove_def Let_def i_def bucket_index_def
        split: if_splits sum.splits prod.splits list.splits)
  from chain_walk_result [OF walk] True kp nonzero in_range hmap' w' show ?thesis
    unfolding i_def by auto
qed

subsection \<open>Keys that are prefixes of one another\<close>

text \<open>
  The three loops compare \<^verbatim>\<open>key_size\<close> bytes of the stored key with the key looked
  for, and never compare the stored \<^verbatim>\<open>key_size\<close> field: a stored key matches every
  prefix of itself. The inputs below are one-bucket maps as \<open>hashmap_new\<close> builds them
  (lemma \<open>one_bucket_built\<close>).
\<close>

text \<open>
  Claim C2 fails on the code. After \<^verbatim>\<open>abc\<close> is added with the value 7, a lookup of the
  two-byte key \<^verbatim>\<open>ab\<close> returns 7, the value of an entry whose key has another length;
  and an insertion of \<^verbatim>\<open>ab\<close> is rejected as a duplicate of \<^verbatim>\<open>abc\<close>.
\<close>

theorem prefix_key_reported_as_match:
  "hashmap_add (True, True) (Some one_bucket) (Some key_abc) 3 7 []
     = Inr (True, Some abc_stored, [])
   \<and> length key_ab = 2 \<and> buckets abc_stored = [[entry key_abc 7]]
   \<and> key_size (entry key_abc 7) = 3
   \<and> hashmap_get (Some abc_stored) (Some key_ab) 2 = Inr 7
   \<and> hashmap_add (True, True) (Some abc_stored) (Some key_ab) 2 9 []
     = Inr (False, Some abc_stored, [])"
  by (simp add: eval_defs input_defs)

text \<open>
  Claim C4 fails on the code. The key \<^verbatim>\<open>ab\<close> is added with the value 7 and found. Then
  \<open>hashmap_remove\<close> is called with the other key \<^verbatim>\<open>a\<close>: it returns true and unlinks the
  entry of \<^verbatim>\<open>ab\<close>, which was never removed by its own key, and the lookup of \<^verbatim>\<open>ab\<close>
  returns \<open>NULL\<close>. And for the key of 257 bytes the lookup right after the successful
  insertion reads past the one byte that was stored.
\<close>

theorem value_lost_without_removing_key:
  "hashmap_add (True, True) (Some one_bucket) (Some key_ab) 2 7 []
     = Inr (True, Some ab_stored, [])
   \<and> hashmap_get (Some ab_stored) (Some key_ab) 2 = Inr 7
   \<and> key_a \<noteq> key_ab
   \<and> hashmap_remove (Some ab_stored) (Some key_a) 1 [] = Inr (True, Some one_bucket, [])
   \<and> hashmap_get (Some one_bucket) (Some key_ab) 2 = Inr NULL
   \<and> hashmap_add (True, True) (Some one_bucket) (Some long_key) 257 7 []
     = Inr (True, Some a_stored, [])
   \<and> hashmap_get (Some a_stored) (Some long_key) 257 = Inl OutOfBoundsRead"
  by (simp add: eval_defs input_defs)

text \<open>
  Claim C5 fails on the code. The map holds \<^verbatim>\<open>abc\<close> only; the key \<^verbatim>\<open>ab\<close> is absent.
  \<open>hashmap_remove\<close> of \<^verbatim>\<open>ab\<close> returns true, where the claim has it report not-found,
  and the entry of \<^verbatim>\<open>abc\<close> is gone.
\<close>

theorem absent_key_removes_longer_key:
  "buckets abc_stored = [[entry key_abc 7]] \<and> key (entry key_abc 7) \<noteq> key_ab
   \<and> hashmap_remove (Some abc_stored) (Some key_ab) 2 [] = Inr (True, Some one_bucket, [])
   \<and> hashmap_get (Some one_bucket) (Some key_abc) 3 = Inr NULL"
  by (simp add: eval_defs input_defs)

subsection \<open>A key of 257 bytes\<close>

text \<open>
  Claim C3 fails on the code for a key longer than 255 bytes. The first insertion of the
  257-byte key succeeds and stores its first byte; the second insertion is rejected and
  leaves the map as it was; but the lookup of the key compares 257 bytes with the one
  byte stored, a read past the end of the key copy, and does not return the value 7.
\<close>

theorem long_key_not_found_after_add:
  "length long_key = 257
   \<and> hashmap_add (True, True) (Some one_bucket) (Some long_key) 257 7 []
     = Inr (True, Some a_stored, [])
   \<and> hashmap_add (True, True) (Some a_stored) (Some long_key) 257 9 []
     = Inr (False, Some a_stored, [])
   \<and> hashmap_get (Some a_stored) (Some long_key) 257 = Inl OutOfBoundsRead"
  by (simp add: eval_defs input_defs)

subsection \<open>Round trip for keys of at most 255 bytes\<close>

text \<open>
  What holds of insertion and lookup where the narrowing of the key size loses nothing:
  after an accepted insertion of a key of at most 255 bytes, the lookup of the key
  returns the value stored (the caller's value, or its clone). After an accepted
  insertion of any key, a second insertion of the key is rejected and leaves the map as
  it is.
\<close>

lemma memcmp_take:
  "n \<le> length s2 \<Longrightarrow> memcmp s1 (take n s2) n = memcmp s1 s2 n"
  by (induction s1 s2 n rule: memcmp.induct) auto

lemma hashmap_get_at:
  assumes "length (buckets m) = unat (bucketcount m)" and "ksize \<noteq> 0"
    and "bucket_index m k ksize < length (buckets m)"
  shows "hashmap_get (Some m) (Some k) ksize =
    (case chain_walk [] (buckets m ! bucket_index m k ksize) k ksize of
       Inl f \<Rightarrow> Inl f
     | Inr (previous, []) \<Rightarrow> Inr NULL
     | Inr (previous, iterator # nxt) \<Rightarrow> Inr (val iterator))"
proof -
  have "\<not> bucketcount m \<le> hashmap_hash_function m k ksize AND hashmask m"
    using assms(1,3) by (simp add: bucket_index_def word_le_nat_alt)
  with assms(2,3) show ?thesis
    by (cases "buckets m ! bucket_index m k ksize")
      (simp_all add: hashmap_get_def Let_def bucket_index_def)
qed

lemma add_then_get:
  assumes "length (buckets m) = unat (bucketcount m)" and "ksize \<le> 255"
    and "hashmap_add mem (Some m) (Some k) ksize v w = Inr (True, hmap', w')"
  shows "hashmap_get hmap' (Some k) ksize
    = Inr (case value_clone_function m of None \<Rightarrow> v | Some c \<Rightarrow> fst (c v w))"
proof -
  define i where "i = bucket_index m k ksize"
  from hashmap_add_accepted [OF assms(3)] obtain b
    where new: "hashbucket_new mem k (of_nat ksize) v (value_clone_function m) w
        = Inr (Some b, w')"
      and nonzero: "ksize \<noteq> 0"
      and in_range: "i < length (buckets m)"
      and hmap': "hmap' = Some (m\<lparr>buckets := (buckets m)[i := buckets m ! i @ [b]]\<rparr>)"
      and differ: "\<forall>e \<in> set (buckets m ! i).
           \<exists>d. memcmp (key e) (key b) (unat (key_size b)) = Inr d \<and> d \<noteq> 0"
    unfolding i_def by blast
  have size: "unat (of_nat ksize :: 8 word) = ksize"
    using assms(2) by (simp add: unat_of_nat)
  from hashbucket_new_result [OF new] size
  have b: "key b = take ksize k" "ksize \<le> length k" "unat (key_size b) = ksize"
    "val b = (case value_clone_function m of None \<Rightarrow> v | Some c \<Rightarrow> fst (c v w))"
    by simp_all
  from differ b have others: "\<forall>e \<in> set (buckets m ! i).
      \<exists>d. memcmp (key e) k ksize = Inr d \<and> d \<noteq> 0"
    by (simp add: memcmp_take)
  have own: "memcmp (key b) k ksize = Inr 0"
    using b by (simp add: memcmp_zero_iff)
  define m' where "m' = m\<lparr>buckets := (buckets m)[i := buckets m ! i @ [b]]\<rparr>"
  have index: "bucket_index m' k ksize = i"
    and slots: "length (buckets m') = unat (bucketcount m')"
    and chain: "buckets m' ! i = buckets m ! i @ [b]"
    using assms(1) in_range by (simp_all add: m'_def i_def bucket_index_def)
  have "length (buckets m') = length (buckets m)"
    by (simp add: m'_def)
  with in_range have "bucket_index m' k ksize < length (buckets m')"
    by (simp only: index)
  from hashmap_get_at [OF slots nonzero this]
    chain_walk_stops [OF others own, of "[]" "[]"]
  have "hashmap_get (Some m') (Some k) ksize = Inr (val b)"
    by (simp add: index chain)
  with b(4) hmap' show ?thesis
    by (simp add: m'_def)
qed

lemma add_again_rejected:
  assumes "hashmap_add mem (Some m) (Some k) ksize v w = Inr (True, hmap', w')"
  shows "\<exists>w2'. hashmap_add mem2 hmap' (Some k) ksize v2 w2 = Inr (False, hmap', w2')"
proof -
  define i where "i = bucket_index m k ksize"
  from hashmap_add_accepted [OF assms] obtain b
    where new: "hashbucket_new mem k (of_nat ksize) v (value_clone_function m) w
        = Inr (Some b, w')"
      and nonzero: "ksize \<noteq> 0"
      and in_range: "i < length (buckets m)"
      and hmap': "hmap' = Some (m\<lparr>buckets := (buckets m)[i := buckets m ! i @ [b]]\<rparr>)"
      and differ: "\<forall>e \<in> set (buckets m ! i).
           \<exists>d. memcmp (key e) (key b) (unat (key_size b)) = Inr d \<and> d \<noteq> 0"
    unfolding i_def by blast
  define n where "n = unat (of_nat ksize :: 8 word)"
  from hashbucket_new_result [OF new]
  have b: "key b = take n k" "n \<le> length k" "unat (key_size b) = n"
    by (simp_all add: n_def)
  then have own: "memcmp (key b) (take n k) n = Inr 0"
    by (simp add: memcmp_zero_iff)
  define m' where "m' = m\<lparr>buckets := (buckets m)[i := buckets m ! i @ [b]]\<rparr>"
  have m': "hashmap_hash_function m' = hashmap_hash_function m" "hashmask m' = hashmask m"
    "length (buckets m') = length (buckets m)" "buckets m' ! i = buckets m ! i @ [b]"
    using in_range by (simp_all add: m'_def)
  from differ b have others: "\<forall>e \<in> set (buckets m ! i).
      \<exists>d. memcmp (key e) (take n k) n = Inr d \<and> d \<noteq> 0"
    by simp
  have walk: "chain_walk [] (buckets m' ! i) (take n k) n = Inr (buckets m ! i, [b])"
    using chain_walk_stops [OF others own, of "[]" "[]"] m'(4) by simp
  have rejected: "hashmap_hashbucket_insert_at m' nb
      (hashmap_hash_function m k ksize AND hashmask m) = Inr (False, m')"
    if "key nb = take n k" "unat (key_size nb) = n" for nb
    using that walk in_range m'
    by (simp add: hashmap_hashbucket_insert_at_def i_def bucket_index_def)
  show ?thesis
  proof (cases "fst mem2 \<and> snd mem2")
    case False
    then show ?thesis
      using nonzero hmap' by (auto simp: hashmap_add_def hashbucket_new_def)
  next
    case True
    with b(2) have "\<exists>nb w2'.
        hashbucket_new mem2 k (of_nat ksize) v2 (value_clone_function m') w2
          = Inr (Some nb, w2') \<and> key nb = take n k \<and> unat (key_size nb) = n"
      by (cases "value_clone_function m'")
        (auto simp: hashbucket_new_def memcpy_def n_def split: prod.splits)
    then obtain nb w2'
      where "hashbucket_new mem2 k (of_nat ksize) v2 (value_clone_function m') w2
          = Inr (Some nb, w2')" "key nb = take n k" "unat (key_size nb) = n"
      by blast
    with rejected [of nb] nonzero hmap' m' show ?thesis
      by (simp add: hashmap_add_def m'_def [symmetric])
  qed
qed

subsection \<open>Removal of a key that is present\<close>

text \<open>
  An insertion is accepted only when the new key is prefix-related to no key of its
  chain, so the maps built from \<open>hashmap_new\<close> by insertions and removals are
  prefix-free. In such a map the removal of a key that is present succeeds, and after
  it the lookup and a second removal of the key report that it is not found.
\<close>

lemma prefix_related_sym: "prefix_related s1 s2 \<longleftrightarrow> prefix_related s2 s1"
  by (auto simp: prefix_related_def min.commute)

lemma prefix_related_Cons:
  "prefix_related (a # s1) (b # s2) \<longleftrightarrow> a = b \<and> prefix_related s1 s2"
  by (simp add: prefix_related_def)

lemma prefix_related_Nil: "prefix_related [] s" "prefix_related s []"
  by (simp_all add: prefix_related_def)

lemma memcmp_differs_iff:
  "n \<le> length s2 \<Longrightarrow>
   (\<exists>d. memcmp s1 s2 n = Inr d \<and> d \<noteq> 0) \<longleftrightarrow> \<not> prefix_related s1 (take n s2)"
  by (induction s1 s2 n rule: memcmp.induct)
    (auto simp: prefix_related_Cons prefix_related_Nil word_uint_eq_iff)

lemma prefix_free_update:
  assumes "prefix_free m" and "chain_prefix_free chain"
  shows "prefix_free (m\<lparr>buckets := (buckets m)[i := chain]\<rparr>)"
proof -
  have "set ((buckets m)[i := chain]) \<subseteq> insert chain (set (buckets m))"
    by (rule set_update_subset_insert)
  with assms show ?thesis
    by (auto simp: prefix_free_def list_all_iff)
qed

lemma prefix_free_nth:
  "prefix_free m \<Longrightarrow> i < length (buckets m) \<Longrightarrow> chain_prefix_free (buckets m ! i)"
  by (simp add: prefix_free_def list_all_length)

lemma hashmap_new_prefix_free:
  assumes "hashmap_new mem requested hash_function clone free = Inr (Some m)"
  shows "prefix_free m"
  using assms
  by (auto simp: hashmap_new_def Let_def prefix_free_def chain_prefix_free_def list_all_iff
      split: option.splits if_splits)

lemma hashmap_add_prefix_free:
  assumes "prefix_free m"
    and "hashmap_add mem (Some m) kp ksize v w = Inr (ok, hmap', w')"
  shows "\<exists>m'. hmap' = Some m' \<and> prefix_free m'"
proof (cases ok)
  case False
  with assms hashmap_add_rejected [of mem "Some m" kp ksize v w hmap' w'] show ?thesis
    by simp
next
  case True
  with assms(2) obtain k where kp: "kp = Some k"
    by (auto simp: hashmap_add_def split: option.splits)
  define i where "i = bucket_index m k ksize"
  from assms(2) True kp
  have "hashmap_add mem (Some m) (Some k) ksize v w = Inr (True, hmap', w')"
    by simp
  from hashmap_add_accepted [OF this] obtain b
    where new: "hashbucket_new mem k (of_nat ksize) v (value_clone_function m) w
        = Inr (Some b, w')"
      and in_range: "i < length (buckets m)"
      and hmap': "hmap' = Some (m\<lparr>buckets := (buckets m)[i := buckets m ! i @ [b]]\<rparr>)"
      and differ: "\<forall>e \<in> set (buckets m ! i).
           \<exists>d. memcmp (key e) (key b) (unat (key_size b)) = Inr d \<and> d \<noteq> 0"
    unfolding i_def by blast
  from hashbucket_new_result [OF new]
  have whole: "unat (key_size b) = length (key b)"
    by simp
  have "\<not> prefix_related (key e) (key b)" if "e \<in> set (buckets m ! i)" for e
    using differ that memcmp_differs_iff [of "length (key b)" "key b" "key e"]
    by (simp add: whole)
  with prefix_free_nth [OF assms(1) in_range]
  have "chain_prefix_free (buckets m ! i @ [b])"
    by (simp add: chain_prefix_free_def sorted_wrt_append)
  with prefix_free_update [OF assms(1)] hmap' show ?thesis
    by simp
qed

lemma hashmap_remove_prefix_free:
  assumes "prefix_free m"
    and "hashmap_remove (Some m) kp ksize w = Inr (ok, hmap', w')"
  shows "\<exists>m'. hmap' = Some m' \<and> prefix_free m'"
proof (cases ok)
  case False
  with assms(1) hashmap_remove_result [OF assms(2)] show ?thesis
    by auto
next
  case True
  with hashmap_remove_result [OF assms(2)] obtain k skipped iterator nxt
    where in_range: "bucket_index m k ksize < length (buckets m)"
      and chain: "buckets m ! bucket_index m k ksize = skipped @ iterator # nxt"
      and hmap': "hmap' = Some (m\<lparr>buckets := (buckets m)[bucket_index m k ksize :=
            skipped @ nxt]\<rparr>)"
    by auto
  from prefix_free_nth [OF assms(1) in_range] chain
  have "chain_prefix_free (skipped @ nxt)"
    by (simp add: chain_prefix_free_def sorted_wrt_append)
  with prefix_free_update [OF assms(1)] hmap' show ?thesis
    by simp
qed

lemma run_operations_prefix_free:
  assumes "prefix_free m" and "run_operations (Some m) ops w = Inr (hmap, w')"
  shows "\<exists>m'. hmap = Some m' \<and> prefix_free m'"
  using assms
proof (induction ops arbitrary: m w)
  case Nil
  then show ?case by auto
next
  case (Cons op ops)
  show ?case
  proof (cases op)
    case (Add mem kp ksize v)
    with Cons.prems(2) obtain ok hmap1 w1
      where step: "hashmap_add mem (Some m) kp ksize v w = Inr (ok, hmap1, w1)"
        and rest: "run_operations hmap1 ops w1 = Inr (hmap, w')"
      by (auto split: sum.splits prod.splits)
    from hashmap_add_prefix_free [OF Cons.prems(1) step] obtain m1
      where "hmap1 = Some m1" "prefix_free m1"
      by blast
    with rest Cons.IH show ?thesis
      by blast
  next
    case (Remove kp ksize)
    with Cons.prems(2) obtain ok hmap1 w1
      where step: "hashmap_remove (Some m) kp ksize w = Inr (ok, hmap1, w1)"
        and rest: "run_operations hmap1 ops w1 = Inr (hmap, w')"
      by (auto split: sum.splits prod.splits)
    from hashmap_remove_prefix_free [OF Cons.prems(1) step] obtain m1
      where "hmap1 = Some m1" "prefix_free m1"
      by blast
    with rest Cons.IH show ?thesis
      by blast
  qed
qed

lemma hashmap_remove_at:
  assumes "length (buckets m) = unat (bucketcount m)" and "ksize \<noteq> 0"
    and "bucket_index m k ksize < length (buckets m)"
  shows "hashmap_remove (Some m) (Some k) ksize w =
    (case chain_walk [] (buckets m ! bucket_index m k ksize) k ksize of
       Inl f \<Rightarrow> Inl f
     | Inr (previous, []) \<Rightarrow> Inr (False, Some m, w)
     | Inr (previous, iterator # nxt) \<Rightarrow>
         Inr (True,
              Some (m\<lparr>buckets := (buckets m)[bucket_index m k ksize := previous @ nxt]\<rparr>),
              hashbucket_free iterator (value_free_function m) w))"
proof -
  have "\<not> bucketcount m \<le> hashmap_hash_function m k ksize AND hashmask m"
    using assms(1,3) by (simp add: bucket_index_def word_le_nat_alt)
  with assms(2,3) show ?thesis
    unfolding bucket_index_def
    by (cases "buckets m ! unat (hashmap_hash_function m k ksize AND hashmask m)")
      (simp_all add: hashmap_remove_def Let_def)
qed

lemma remove_present_key:
  assumes "prefix_free m" and "key_present m k ksize" and "ksize \<noteq> 0"
  shows "\<exists>m' w'. hashmap_remove (Some m) (Some k) ksize w = Inr (True, Some m', w')
    \<and> hashmap_get (Some m') (Some k) ksize = Inr NULL
    \<and> hashmap_remove (Some m') (Some k) ksize w' = Inr (False, Some m', w')"
proof -
  define i where "i = bucket_index m k ksize"
  from assms(2) have fits: "ksize \<le> length k" and in_range: "i < length (buckets m)"
    by (simp_all add: key_present_def i_def)
  from assms(2) obtain e where "e \<in> set (buckets m ! i)" and e: "key e = take ksize k"
    by (auto simp: key_present_def i_def list_ex_iff)
  then obtain skipped nxt where chain: "buckets m ! i = skipped @ e # nxt"
    by (auto simp: in_set_conv_decomp)
  from prefix_free_nth [OF assms(1) in_range] chain
  have apart: "\<forall>x \<in> set skipped \<union> set nxt. \<not> prefix_related (key x) (key e)"
    using prefix_related_sym
    by (auto simp: chain_prefix_free_def sorted_wrt_append)
  then have others: "\<forall>x \<in> set (skipped @ nxt).
      \<exists>d. memcmp (key x) k ksize = Inr d \<and> d \<noteq> 0"
    using fits e by (simp add: memcmp_differs_iff)
  have own: "memcmp (key e) k ksize = Inr 0"
    using fits e by (simp add: memcmp_zero_iff)
  from assms(1) have slots: "length (buckets m) = unat (bucketcount m)"
    by (simp add: prefix_free_def)
  define m' where "m' = m\<lparr>buckets := (buckets m)[i := skipped @ nxt]\<rparr>"
  define w' where "w' = hashbucket_free e (value_free_function m) w"
  have walk: "chain_walk [] (buckets m ! i) k ksize = Inr (skipped, e # nxt)"
    using chain_walk_stops [of skipped k ksize e "[]" nxt] others own chain by simp
  from hashmap_remove_at [OF slots assms(3), of k w] in_range walk
  have removed: "hashmap_remove (Some m) (Some k) ksize w = Inr (True, Some m', w')"
    by (simp add: i_def [symmetric] m'_def w'_def)
  have index: "bucket_index m' k ksize = i"
    and slots': "length (buckets m') = unat (bucketcount m')"
    and chain': "buckets m' ! i = skipped @ nxt"
    using slots in_range by (simp_all add: m'_def i_def bucket_index_def)
  have "length (buckets m') = length (buckets m)"
    by (simp add: m'_def)
  with in_range have in_range': "bucket_index m' k ksize < length (buckets m')"
    by (simp only: index)
  have walk': "chain_walk [] (buckets m' ! i) k ksize = Inr (skipped @ nxt, [])"
    using chain_walk_all_differ [OF others, of "[]"] chain' by simp
  from hashmap_get_at [OF slots' assms(3) in_range'] walk'
  have "hashmap_get (Some m') (Some k) ksize = Inr NULL"
    by (simp add: index)
  moreover from hashmap_remove_at [OF slots' assms(3) in_range', of w'] walk'
  have "hashmap_remove (Some m') (Some k) ksize w' = Inr (False, Some m', w')"
    by (simp add: index)
  ultimately show ?thesis
    using removed by blast
qed

lemma add_makes_present:
  assumes "ksize \<le> 255"
    and "hashmap_add mem (Some m) (Some k) ksize v w = Inr (True, Some m', w')"
  shows "key_present m' k ksize"
proof -
  define i where "i = bucket_index m k ksize"
  from hashmap_add_accepted [OF assms(2)] obtain b
    where new: "hashbucket_new mem k (of_nat ksize) v (value_clone_function m) w
        = Inr (Some b, w')"
      and in_range: "i < length (buckets m)"
      and m': "m' = m\<lparr>buckets := (buckets m)[i := buckets m ! i @ [b]]\<rparr>"
    unfolding i_def by blast
  have size: "unat (of_nat ksize :: 8 word) = ksize"
    using assms(1) by (simp add: unat_of_nat)
  from hashbucket_new_result [OF new] size
  have "key b = take ksize k" "ksize \<le> length k" "unat (key_size b) = ksize"
    by simp_all
  moreover have "bucket_index m' k ksize = i" "buckets m' ! i = buckets m ! i @ [b]"
    "length (buckets m') = length (buckets m)"
    using in_range by (simp_all add: m' i_def bucket_index_def)
  ultimately show ?thesis
    using in_range by (simp add: key_present_def)
qed

subsection \<open>Keys longer than 255 bytes\<close>



subsection \<open>The value of a rejected insertion\<close>




subsection \<open>Uniqueness of keys\<close>

lemma keys_unique_update:
  assumes "keys_unique m" and "chain_keys_distinct chain"
  shows "keys_unique (m\<lparr>buckets := (buckets m)[i := chain]\<rparr>)"
proof -
  have "set ((buckets m)[i := chain]) \<subseteq> insert chain (set (buckets m))"
    by (rule set_update_subset_insert)
  with assms show ?thesis
    by (auto simp: keys_unique_def list_all_iff)
qed

lemma keys_unique_nth:
  "keys_unique m \<Longrightarrow> i < length (buckets m) \<Longrightarrow> chain_keys_distinct (buckets m ! i)"
  by (simp add: keys_unique_def list_all_length)

lemma hashmap_new_keys_unique:
  assumes "hashmap_new mem requested hash_function clone free = Inr (Some m)"
  shows "keys_unique m"
  using assms
  by (auto simp: hashmap_new_def Let_def keys_unique_def chain_keys_distinct_def list_all_iff
      split: option.splits if_splits)

lemma hashmap_add_keys_unique:
  assumes "keys_unique m"
    and "hashmap_add mem (Some m) kp ksize v w = Inr (ok, hmap', w')"
  shows "\<exists>m'. hmap' = Some m' \<and> keys_unique m'"
proof (cases ok)
  case False
  with assms hashmap_add_rejected [of mem "Some m" kp ksize v w hmap' w'] show ?thesis
    by simp
next
  case True
  with assms(2) obtain k where kp: "kp = Some k"
    by (auto simp: hashmap_add_def split: option.splits)
  define i where "i = bucket_index m k ksize"
  from assms(2) True kp
  have "hashmap_add mem (Some m) (Some k) ksize v w = Inr (True, hmap', w')"
    by simp
  from hashmap_add_accepted [OF this] obtain b
    where new: "hashbucket_new mem k (of_nat ksize) v (value_clone_function m) w
        = Inr (Some b, w')"
      and in_range: "i < length (buckets m)"
      and hmap': "hmap' = Some (m\<lparr>buckets := (buckets m)[i := buckets m ! i @ [b]]\<rparr>)"
      and differ: "\<forall>e \<in> set (buckets m ! i).
           \<exists>d. memcmp (key e) (key b) (unat (key_size b)) = Inr d \<and> d \<noteq> 0"
    unfolding i_def by blast
  from hashbucket_new_result [OF new]
  have whole: "unat (key_size b) = length (key b)"
    by simp
  have "key e \<noteq> key b" if "e \<in> set (buckets m ! i)" for e
  proof
    assume "key e = key b"
    then have "memcmp (key e) (key b) (unat (key_size b)) = Inr 0"
      by (simp add: memcmp_zero_iff whole)
    with differ that show False
      by auto
  qed
  then have "(key b, key_size b) \<notin> set (map (\<lambda>b. (key b, key_size b)) (buckets m ! i))"
    by fastforce
  with keys_unique_nth [OF assms(1) in_range]
  have "chain_keys_distinct (buckets m ! i @ [b])"
    by (simp add: chain_keys_distinct_def)
  with keys_unique_update [OF assms(1)] hmap' show ?thesis
    by simp
qed

lemma hashmap_remove_keys_unique:
  assumes "keys_unique m"
    and "hashmap_remove (Some m) kp ksize w = Inr (ok, hmap', w')"
  shows "\<exists>m'. hmap' = Some m' \<and> keys_unique m'"
proof (cases ok)
  case False
  with assms(1) hashmap_remove_result [OF assms(2)] show ?thesis
    by auto
next
  case True
  with hashmap_remove_result [OF assms(2)] obtain k skipped iterator nxt
    where in_range: "bucket_index m k ksize < length (buckets m)"
      and chain: "buckets m ! bucket_index m k ksize = skipped @ iterator # nxt"
      and hmap': "hmap' = Some (m\<lparr>buckets := (buckets m)[bucket_index m k ksize :=
            skipped @ nxt]\<rparr>)"
    by auto
  from keys_unique_nth [OF assms(1) in_range] chain
  have "chain_keys_distinct (skipped @ nxt)"
    by (simp add: chain_keys_distinct_def)
  with keys_unique_update [OF assms(1)] hmap' show ?thesis
    by simp
qed

lemma run_operations_keys_unique:
  assumes "keys_unique m" and "run_operations (Some m) ops w = Inr (hmap, w')"
  shows "\<exists>m'. hmap = Some m' \<and> keys_unique m'"
  using assms
proof (induction ops arbitrary: m w)
  case Nil
  then show ?case by auto
next
  case (Cons op ops)
  show ?case
  proof (cases op)
    case (Add mem kp ksize v)
    with Cons.prems(2) obtain ok hmap1 w1
      where step: "hashmap_add mem (Some m) kp ksize v w = Inr (ok, hmap1, w1)"
        and rest: "run_operations hmap1 ops w1 = Inr (hmap, w')"
      by (auto split: sum.splits prod.splits)
    from hashmap_add_keys_unique [OF Cons.prems(1) step] obtain m1
      where "hmap1 = Some m1" "keys_unique m1"
      by blast
    with rest Cons.IH show ?thesis
      by blast
  next
    case (Remove kp ksize)
    with Cons.prems(2) obtain ok hmap1 w1
      where step: "hashmap_remove (Some m) kp ksize w = Inr (ok, hmap1, w1)"
        and rest: "run_operations hmap1 ops w1 = Inr (hmap, w')"
      by (auto split: sum.splits prod.splits)
    from hashmap_remove_keys_unique [OF Cons.prems(1) step] obtain m1
      where "hmap1 = Some m1" "keys_unique m1"
      by blast
    with rest Cons.IH show ?thesis
      by blast
  qed
qed

text \<open>
  The lemmas above cover the calls that return without a fault. The calls that read
  past a key copy follow below, under the second reading.
\<close>

subsection \<open>Runs that cannot fault\<close>

text \<open>
  When all keys have one size of at most 255 bytes, no comparison leaves a key buffer
  and the masked hash is always an index of the bucket array: every sequence of
  insertions and removals on a map from \<open>hashmap_new\<close> runs to its end, and the keys of
  the map it ends in are unique.
\<close>

lemma memcmp_total:
  "n \<le> length s1 \<Longrightarrow> n \<le> length s2 \<Longrightarrow> \<exists>d. memcmp s1 s2 n = Inr d"
  by (induction s1 s2 n rule: memcmp.induct) auto

lemma chain_walk_total:
  assumes "\<forall>e \<in> set chain. \<exists>d. memcmp (key e) k n = Inr d"
  shows "\<exists>passed rest. chain_walk previous chain k n = Inr (passed, rest)
    \<and> previous @ chain = passed @ rest"
  using assms
proof (induction chain arbitrary: previous)
  case Nil
  then show ?case by simp
next
  case (Cons iterator nxt)
  then obtain d where d: "memcmp (key iterator) k n = Inr d"
    by auto
  show ?case
  proof (cases "d = 0")
    case True
    with d show ?thesis by simp
  next
    case False
    from Cons.prems have "\<forall>e \<in> set nxt. \<exists>d. memcmp (key e) k n = Inr d"
      by simp
    from Cons.IH [OF this, of "previous @ [iterator]"] d False show ?thesis
      by simp
  qed
qed

lemma masked_index_in_range:
  assumes "keys_sized n m"
  shows "unat (h AND hashmask m) < length (buckets m)"
    and "\<not> bucketcount m \<le> h AND hashmask m"
proof -
  from assms obtain s where s: "s < 32" "bucketcount m = 2 ^ s" "hashmask m = 2 ^ s - 1"
    and slots: "length (buckets m) = unat (bucketcount m)"
    by (auto simp: keys_sized_def)
  have "h AND mask s < 2 ^ s"
    using s(1) by (intro and_mask_less') simp
  then have less: "h AND hashmask m < bucketcount m"
    by (simp add: s mask_eq_exp_minus_1)
  then show "\<not> bucketcount m \<le> h AND hashmask m"
    by simp
  from less slots show "unat (h AND hashmask m) < length (buckets m)"
    by (simp add: word_less_nat_alt)
qed

lemma keys_sized_update:
  assumes "keys_sized n m" and "list_all (\<lambda>e. length (key e) = n) chain"
  shows "keys_sized n (m\<lparr>buckets := (buckets m)[i := chain]\<rparr>)"
proof -
  have "set ((buckets m)[i := chain]) \<subseteq> insert chain (set (buckets m))"
    by (rule set_update_subset_insert)
  with assms show ?thesis
    by (auto simp: keys_sized_def list_all_iff)
qed

lemma keys_sized_nth:
  "keys_sized n m \<Longrightarrow> i < length (buckets m) \<Longrightarrow> list_all (\<lambda>e. length (key e) = n) (buckets m ! i)"
  by (simp add: keys_sized_def list_all_length)

lemma hashmap_new_keys_sized:
  assumes "hashmap_new mem requested hash_function clone free = Inr (Some m)"
  shows "keys_sized n m"
proof -
  define shifts where "shifts = highest_bit requested 0"
  define shifts' where "shifts' =
    (if push_bit (unat shifts + 1) 1 - requested < requested - push_bit (unat shifts) 1
     then shifts + 1 else shifts)"
  from assms have small: "unat shifts' < 32"
    and m: "bucketcount m = 2 ^ unat shifts'" "hashmask m = 2 ^ unat shifts' - 1"
      "buckets m = replicate (unat ((2 :: 32 word) ^ unat shifts')) []"
    unfolding hashmap_new_def Let_def shifts_def [symmetric] shifts'_def [symmetric]
    by (auto split: option.splits if_splits)
  then show ?thesis
    unfolding keys_sized_def by (auto simp: list_all_iff)
qed

lemma insert_at_total:
  assumes "unat idx < length (buckets m)"
    and "\<forall>e \<in> set (buckets m ! unat idx).
           \<exists>d. memcmp (key e) (key nb) (unat (key_size nb)) = Inr d"
  shows "hashmap_hashbucket_insert_at m nb idx = Inr (False, m)
    \<or> hashmap_hashbucket_insert_at m nb idx
        = Inr (True, m\<lparr>buckets := (buckets m)[unat idx := buckets m ! unat idx @ [nb]]\<rparr>)"
proof (cases "buckets m ! unat idx = []")
  case True
  with assms(1) show ?thesis
    by (simp add: hashmap_hashbucket_insert_at_def)
next
  case False
  from chain_walk_total [OF assms(2), of "[]"] obtain passed rest
    where walk: "chain_walk [] (buckets m ! unat idx) (key nb) (unat (key_size nb))
        = Inr (passed, rest)"
      and whole: "buckets m ! unat idx = passed @ rest"
    by auto
  with False assms(1) show ?thesis
    by (cases rest) (simp_all add: hashmap_hashbucket_insert_at_def)
qed

lemma hashbucket_new_total:
  assumes "fst mem" and "snd mem" and "unat ksize \<le> length k"
  shows "\<exists>nb w'. hashbucket_new mem k ksize v clone w = Inr (Some nb, w')
    \<and> key nb = take (unat ksize) k \<and> key_size nb = ksize"
  using assms
  by (cases clone) (auto simp: hashbucket_new_def memcpy_def split: prod.splits)

lemma hashmap_add_never_faults:
  assumes "keys_sized n m" and "n \<le> 255"
    and "case kp of None \<Rightarrow> True | Some k \<Rightarrow> n \<le> length k"
  shows "\<exists>ok m' w'. hashmap_add mem (Some m) kp n v w = Inr (ok, Some m', w')
    \<and> keys_sized n m'"
proof (cases kp)
  case None
  with assms(1) show ?thesis
    by (auto simp: hashmap_add_def)
next
  case (Some k)
  with assms(3) have fits: "n \<le> length k"
    by simp
  show ?thesis
  proof (cases "n = 0 \<or> \<not> fst mem \<or> \<not> snd mem")
    case True
    with Some assms(1) show ?thesis
      by (auto simp: hashmap_add_def hashbucket_new_def)
  next
    case False
    have size: "unat (of_nat n :: 8 word) = n"
      using assms(2) by (simp add: unat_of_nat)
    with hashbucket_new_total [of mem "of_nat n" k v "value_clone_function m" w] False fits
    obtain nb w1
      where new: "hashbucket_new mem k (of_nat n) v (value_clone_function m) w
          = Inr (Some nb, w1)"
        and nb: "key nb = take n k" "unat (key_size nb) = n"
      by auto
    define idx where "idx = hashmap_hash_function m k n AND hashmask m"
    have in_range: "unat idx < length (buckets m)"
      unfolding idx_def using assms(1) by (rule masked_index_in_range)
    from keys_sized_nth [OF assms(1) in_range] nb fits
    have comparable: "\<forall>e \<in> set (buckets m ! unat idx).
        \<exists>d. memcmp (key e) (key nb) (unat (key_size nb)) = Inr d"
      by (auto simp: list_all_iff intro!: memcmp_total)
    from keys_sized_nth [OF assms(1) in_range] nb fits
    have "list_all (\<lambda>e. length (key e) = n) (buckets m ! unat idx @ [nb])"
      by simp
    from keys_sized_update [OF assms(1) this]
    have sized: "keys_sized n (m\<lparr>buckets := (buckets m)[unat idx :=
        buckets m ! unat idx @ [nb]]\<rparr>)" .
    from insert_at_total [OF in_range comparable] show ?thesis
    proof
      assume "hashmap_hashbucket_insert_at m nb idx = Inr (False, m)"
      with Some False new assms(1) show ?thesis
        by (auto simp: hashmap_add_def idx_def)
    next
      assume "hashmap_hashbucket_insert_at m nb idx
        = Inr (True, m\<lparr>buckets := (buckets m)[unat idx := buckets m ! unat idx @ [nb]]\<rparr>)"
      with Some False new sized show ?thesis
        by (auto simp: hashmap_add_def idx_def)
    qed
  qed
qed

lemma hashmap_remove_never_faults:
  assumes "keys_sized n m"
    and "case kp of None \<Rightarrow> True | Some k \<Rightarrow> n \<le> length k"
  shows "\<exists>ok m' w'. hashmap_remove (Some m) kp n w = Inr (ok, Some m', w')
    \<and> keys_sized n m'"
proof (cases kp)
  case None
  with assms(1) show ?thesis
    by (auto simp: hashmap_remove_def)
next
  case (Some k)
  with assms(2) have fits: "n \<le> length k"
    by simp
  show ?thesis
  proof (cases "n = 0")
    case True
    with Some assms(1) show ?thesis
      by (auto simp: hashmap_remove_def)
  next
    case False
    define idx where "idx = hashmap_hash_function m k n AND hashmask m"
    have in_range: "unat idx < length (buckets m)"
      and below: "\<not> bucketcount m \<le> idx"
      unfolding idx_def using assms(1) by (rule masked_index_in_range)+
    from keys_sized_nth [OF assms(1) in_range] fits
    have "\<forall>e \<in> set (buckets m ! unat idx). \<exists>d. memcmp (key e) k n = Inr d"
      by (auto simp: list_all_iff intro!: memcmp_total)
    from chain_walk_total [OF this, of "[]"] obtain passed rest
      where walk: "chain_walk [] (buckets m ! unat idx) k n = Inr (passed, rest)"
        and whole: "buckets m ! unat idx = passed @ rest"
      by auto
    show ?thesis
    proof (cases rest)
      case Nil
      with Some False in_range below walk assms(1) show ?thesis
        by (cases "buckets m ! unat idx")
          (auto simp: hashmap_remove_def Let_def idx_def)
    next
      case (Cons iterator nxt)
      from keys_sized_nth [OF assms(1) in_range] whole Cons
      have "list_all (\<lambda>e. length (key e) = n) (passed @ nxt)"
        by (auto simp: list_all_iff)
      from keys_sized_update [OF assms(1) this]
      have "keys_sized n (m\<lparr>buckets := (buckets m)[unat idx := passed @ nxt]\<rparr>)" .
      moreover from whole Cons have "buckets m ! unat idx \<noteq> []"
        by auto
      ultimately show ?thesis
        using Some False in_range below walk Cons
        by (auto simp: hashmap_remove_def Let_def idx_def [symmetric])
    qed
  qed
qed

lemma run_operations_never_faults:
  assumes "keys_sized n m" and "n \<le> 255" and "list_all (sized_operation n) ops"
  shows "\<exists>m' w'. run_operations (Some m) ops w = Inr (Some m', w')"
  using assms
proof (induction ops arbitrary: m w)
  case Nil
  then show ?case by simp
next
  case (Cons op ops)
  show ?case
  proof (cases op)
    case (Add mem kp ksize v)
    with Cons.prems(3) have "ksize = n"
      and "case kp of None \<Rightarrow> True | Some k \<Rightarrow> n \<le> length k"
      by (simp_all add: sized_operation_def)
    with hashmap_add_never_faults [OF Cons.prems(1,2), of kp mem v w] obtain ok m1 w1
      where "hashmap_add mem (Some m) kp ksize v w = Inr (ok, Some m1, w1)"
        and "keys_sized n m1"
      by auto
    with Cons.IH [of m1 w1] Cons.prems(2,3) Add show ?thesis
      by simp
  next
    case (Remove kp ksize)
    with Cons.prems(3) have "ksize = n"
      and "case kp of None \<Rightarrow> True | Some k \<Rightarrow> n \<le> length k"
      by (simp_all add: sized_operation_def)
    with hashmap_remove_never_faults [OF Cons.prems(1), of kp w] obtain ok m1 w1
      where "hashmap_remove (Some m) kp ksize w = Inr (ok, Some m1, w1)"
        and "keys_sized n m1"
      by auto
    with Cons.IH [of m1 w1] Cons.prems(2,3) Remove show ?thesis
      by simp
  qed
qed

lemma uniform_keys_never_fault:
  assumes "hashmap_new mem requested hash_function clone free = Inr (Some m0)"
    and "n \<le> 255" and "list_all (sized_operation n) ops"
  shows "\<exists>m w'. run_operations (Some m0) ops w = Inr (Some m, w') \<and> keys_unique m"
proof -
  from run_operations_never_faults [OF hashmap_new_keys_sized [OF assms(1)] assms(2,3)]
  obtain m w' where run: "run_operations (Some m0) ops w = Inr (Some m, w')"
    by blast
  from run_operations_keys_unique [OF hashmap_new_keys_unique [OF assms(1)] run] run
  show ?thesis
    by simp
qed

text \<open>
  The maps reached from \<open>hashmap_new\<close> keep the bucket array that \<open>hashmap_new\<close>
  allocated, so on each of them \<open>hashmap_apply\<close> visits every entry once, in the order
  of the buckets and of the chains.
\<close>

lemma hashmap_apply_after_run:
  assumes "hashmap_new mem requested hash_function clone free = Inr (Some m0)"
    and "run_operations (Some m0) ops w = Inr (Some m, w')"
  shows "hashmap_apply (Some m) (Some f) u = Inr (fold f (map val (concat (buckets m))) u)"
proof -
  from run_operations_prefix_free [OF hashmap_new_prefix_free [OF assms(1)] assms(2)]
  have "length (buckets m) = unat (bucketcount m)"
    by (simp add: prefix_free_def)
  then show ?thesis
    by (simp add: hashmap_apply_def hashmap_apply_from_fold)
qed

subsection \<open>Runs that read past a key buffer\<close>

text \<open>
  Reading within a buffer does not depend on what lies behind it, and \<open>read_bytes\<close>
  always delivers the number of bytes asked for.
\<close>

lemma length_read_bytes:
  "length (read_bytes s behind n) = n"
  by (induction s behind n rule: read_bytes.induct) simp_all

lemma read_bytes_within:
  "n \<le> length s \<Longrightarrow> read_bytes s behind n = take n s"
  by (induction s behind n rule: read_bytes.induct) simp_all

lemma read_bytes_numeral:
  "read_bytes [] behind (numeral n)
     = behind 0 # read_bytes [] (\<lambda>i. behind (Suc i)) (pred_numeral n)"
  "read_bytes (a # s) behind (numeral n) = a # read_bytes s behind (pred_numeral n)"
  by (simp_all add: numeral_eq_Suc)

lemmas eval_past_defs =
  hashmap_add_past_def hashbucket_new_past_def hashmap_hashbucket_insert_at_past_def
  hashmap_remove_past_def read_bytes_numeral zero_memory_def b_memory_def
  zeros_behind_def b_behind_def

text \<open>
  Wherever an operation of the first reading returns without a fault, the operation of
  this section returns the same, whatever the memory around the call holds: the two
  readings differ only where the first one stops.
\<close>

lemma memcmp_read_bytes:
  "memcmp s1 s2 n = Inr d \<Longrightarrow>
   memcmp (read_bytes s1 behind1 n) (read_bytes s2 behind2 n) n = Inr d"
  by (induction s1 s2 n arbitrary: behind1 behind2 rule: memcmp.induct)
    (auto split: if_splits)

lemma memcmp_read_bytes_left:
  "memcmp s1 s2 n = Inr d \<Longrightarrow> memcmp (read_bytes s1 behind n) s2 n = Inr d"
  by (induction s1 s2 n arbitrary: behind rule: memcmp.induct) (auto split: if_splits)

lemma chain_walk_past_agrees:
  assumes "chain_walk previous chain k n = Inr r"
  shows "chain_walk_past behind previous chain k n = Inr r"
  using assms
proof (induction chain arbitrary: previous)
  case Nil
  then show ?case by simp
next
  case (Cons iterator nxt)
  then obtain d where d: "memcmp (key iterator) k n = Inr d"
    by (auto split: sum.splits)
  from memcmp_read_bytes_left [OF this]
  have "memcmp (read_bytes (key iterator) (behind (length previous)) n) k n = Inr d" .
  with Cons d show ?case
    by (auto split: if_splits)
qed

lemma chain_walk_past_agrees_read:
  assumes "chain_walk previous chain k n = Inr r"
  shows "chain_walk_past behind previous chain (read_bytes k behind_k n) n = Inr r"
  using assms
proof (induction chain arbitrary: previous)
  case Nil
  then show ?case by simp
next
  case (Cons iterator nxt)
  then obtain d where d: "memcmp (key iterator) k n = Inr d"
    by (auto split: sum.splits)
  from memcmp_read_bytes [OF this]
  have "memcmp (read_bytes (key iterator) (behind (length previous)) n)
      (read_bytes k behind_k n) n = Inr d" .
  with Cons d show ?case
    by (auto split: if_splits)
qed

lemma hashbucket_new_past_agrees:
  assumes "hashbucket_new mem k ksize v clone w = Inr r"
  shows "hashbucket_new_past behind mem k ksize v clone w = r"
  using assms
  by (auto simp: hashbucket_new_def hashbucket_new_past_def memcpy_def read_bytes_within
      split: if_splits option.splits prod.splits)

lemma insert_at_past_agrees:
  assumes "hashmap_hashbucket_insert_at m nb idx = Inr r"
  shows "hashmap_hashbucket_insert_at_past behind m nb idx = Inr r"
proof (cases "length (buckets m) \<le> unat idx \<or> buckets m ! unat idx = []")
  case True
  with assms show ?thesis
    by (auto simp: hashmap_hashbucket_insert_at_def hashmap_hashbucket_insert_at_past_def)
next
  case False
  with assms obtain r' where walk: "chain_walk [] (buckets m ! unat idx) (key nb)
      (unat (key_size nb)) = Inr r'"
    by (auto simp: hashmap_hashbucket_insert_at_def split: sum.splits)
  from chain_walk_past_agrees [OF this, of behind] walk False assms show ?thesis
    by (simp add: hashmap_hashbucket_insert_at_def hashmap_hashbucket_insert_at_past_def)
qed

lemma hashmap_add_past_agrees:
  assumes "hashmap_add mem hmap kp ksize v w = Inr r"
  shows "hashmap_add_past around mem hmap kp ksize v w = Inr r"
proof (cases "hmap = None \<or> kp = None \<or> ksize = 0")
  case True
  with assms show ?thesis
    by (auto simp: hashmap_add_def hashmap_add_past_def split: option.splits)
next
  case False
  then obtain m k where hmap: "hmap = Some m" and kp: "kp = Some k" and nonzero: "ksize \<noteq> 0"
    by auto
  with assms obtain nb w1
    where new: "hashbucket_new mem k (of_nat ksize) v (value_clone_function m) w
        = Inr (nb, w1)"
    by (auto simp: hashmap_add_def split: sum.splits)
  from hashbucket_new_past_agrees [OF this]
  have new_past: "hashbucket_new_past (behind_key around) mem k (of_nat ksize) v
      (value_clone_function m) w = (nb, w1)" .
  show ?thesis
  proof (cases nb)
    case None
    with assms hmap kp nonzero new new_past show ?thesis
      by (simp add: hashmap_add_def hashmap_add_past_def)
  next
    case (Some b)
    with assms hmap kp nonzero new obtain r'
      where ins: "hashmap_hashbucket_insert_at m b
          (hashmap_hash_function m k ksize AND hashmask m) = Inr r'"
      by (auto simp: hashmap_add_def split: sum.splits)
    from insert_at_past_agrees [OF this, of "behind_entry around"] ins
      assms hmap kp nonzero new new_past Some
    show ?thesis
      by (simp add: hashmap_add_def hashmap_add_past_def)
  qed
qed

lemma hashmap_remove_past_agrees:
  assumes "hashmap_remove hmap kp ksize w = Inr r"
  shows "hashmap_remove_past around hmap kp ksize w = Inr r"
proof (cases "hmap = None \<or> kp = None \<or> ksize = 0")
  case True
  with assms show ?thesis
    by (auto simp: hashmap_remove_def hashmap_remove_past_def split: option.splits)
next
  case False
  then obtain m k where hmap: "hmap = Some m" and kp: "kp = Some k" and nonzero: "ksize \<noteq> 0"
    by auto
  define hash where "hash = hashmap_hash_function m k ksize AND hashmask m"
  show ?thesis
  proof (cases "bucketcount m \<le> hash \<or> length (buckets m) \<le> unat hash
      \<or> buckets m ! unat hash = []")
    case True
    with assms hmap kp nonzero show ?thesis
      by (auto simp: hashmap_remove_def hashmap_remove_past_def Let_def hash_def
          split: if_splits)
  next
    case False
    with assms hmap kp nonzero obtain r'
      where walk: "chain_walk [] (buckets m ! unat hash) k ksize = Inr r'"
      by (auto simp: hashmap_remove_def Let_def hash_def split: sum.splits)
    from chain_walk_past_agrees_read [OF this, of "behind_entry around" "behind_key around"]
      walk False assms hmap kp nonzero
    show ?thesis
      by (simp add: hashmap_remove_def hashmap_remove_past_def Let_def hash_def)
  qed
qed

lemma run_operations_past_agrees:
  assumes "run_operations hmap (map snd calls) w = Inr r"
  shows "run_operations_past hmap calls w = Inr r"
  using assms
proof (induction calls arbitrary: hmap w)
  case Nil
  then show ?case by simp
next
  case (Cons call calls)
  obtain around op where call: "call = (around, op)"
    by (cases call)
  show ?case
  proof (cases op)
    case (Add mem kp ksize v)
    with Cons.prems call obtain ok hmap1 w1
      where step: "hashmap_add mem hmap kp ksize v w = Inr (ok, hmap1, w1)"
        and rest: "run_operations hmap1 (map snd calls) w1 = Inr r"
      by (auto split: sum.splits prod.splits)
    from hashmap_add_past_agrees [OF step, of around] Cons.IH [OF rest] call Add
    show ?thesis
      by simp
  next
    case (Remove kp ksize)
    with Cons.prems call obtain ok hmap1 w1
      where step: "hashmap_remove hmap kp ksize w = Inr (ok, hmap1, w1)"
        and rest: "run_operations hmap1 (map snd calls) w1 = Inr r"
      by (auto split: sum.splits prod.splits)
    from hashmap_remove_past_agrees [OF step, of around] Cons.IH [OF rest] call Remove
    show ?thesis
      by simp
  qed
qed

text \<open>
  The insertion of \<^verbatim>\<open>ab\<close> into a chain that holds \<^verbatim>\<open>a\<close> is where the two readings
  part. The first stops at the comparison of two bytes with the one-byte key copy. The
  second goes on with the byte behind the copy: if that is not a \<^verbatim>\<open>b\<close> the new entry is
  appended, if it is a \<^verbatim>\<open>b\<close> the insertion is rejected as a duplicate.
\<close>

lemma stored_prefix_ends_first_reading:
  "run_operations (Some one_bucket)
     [Add (True, True) (Some key_a) 1 1, Add (True, True) (Some key_ab) 2 2] []
   = Inl OutOfBoundsRead"
  by (simp add: eval_defs input_defs)

lemma stored_prefix_either_outcome:
  "run_operations_past (Some one_bucket)
     [(zeros_behind, Add (True, True) (Some key_a) 1 1),
      (zeros_behind, Add (True, True) (Some key_ab) 2 2)] []
   = Inr (Some (one_bucket\<lparr>buckets := [[entry key_a 1, entry key_ab 2]]\<rparr>), [])"
  "run_operations_past (Some one_bucket)
     [(zeros_behind, Add (True, True) (Some key_a) 1 1),
      (b_behind, Add (True, True) (Some key_ab) 2 2)] []
   = Inr (Some (one_bucket\<lparr>buckets := [[entry key_a 1]]\<rparr>), [])"
  by (simp_all add: eval_defs eval_past_defs input_defs)

text \<open>
  Under the second reading no call faults on a map whose table has the shape that
  \<open>hashmap_new\<close> gives it, and every call keeps the shape and the uniqueness of the
  keys. The walk compares the whole of the new key: an entry with the same key bytes has
  as many bytes, is compared without leaving its key copy and stops the walk, whatever
  the comparisons with the other entries read.
\<close>

lemma keys_sized_table_shaped:
  "keys_sized n m \<Longrightarrow> table_shaped m"
  by (simp add: keys_sized_def table_shaped_def)

lemma hashmap_new_table_shaped:
  assumes "hashmap_new mem requested hash_function clone free = Inr (Some m)"
  shows "table_shaped m"
  using hashmap_new_keys_sized [OF assms, of 0] by (rule keys_sized_table_shaped)

lemma table_shaped_update:
  "table_shaped m \<Longrightarrow> table_shaped (m\<lparr>buckets := (buckets m)[i := chain]\<rparr>)"
  by (simp add: table_shaped_def)

lemma masked_index_in_table:
  assumes "table_shaped m"
  shows "unat (h AND hashmask m) < length (buckets m)"
    and "\<not> bucketcount m \<le> h AND hashmask m"
proof -
  from assms have "keys_sized 0 (m\<lparr>buckets := replicate (length (buckets m)) []\<rparr>)"
    by (auto simp: table_shaped_def keys_sized_def list_all_iff)
  from masked_index_in_range [OF this, of h]
  show "unat (h AND hashmask m) < length (buckets m)"
    and "\<not> bucketcount m \<le> h AND hashmask m"
    by simp_all
qed

lemma chain_walk_past_total:
  assumes "length k = n"
  shows "\<exists>passed rest. chain_walk_past behind previous chain k n = Inr (passed, rest)
    \<and> previous @ chain = passed @ rest
    \<and> (rest = [] \<longrightarrow> (\<forall>e \<in> set chain. key e \<noteq> k))"
proof (induction chain arbitrary: previous)
  case Nil
  then show ?case by simp
next
  case (Cons iterator nxt)
  have "n \<le> length (read_bytes (key iterator) (behind (length previous)) n)"
    by (simp add: length_read_bytes)
  with assms memcmp_total [of n "read_bytes (key iterator) (behind (length previous)) n" k]
  obtain d where d: "memcmp (read_bytes (key iterator) (behind (length previous)) n) k n
      = Inr d"
    by auto
  show ?case
  proof (cases "d = 0")
    case True
    with d show ?thesis by simp
  next
    case False
    have other: "key iterator \<noteq> k"
    proof
      assume same: "key iterator = k"
      with assms have "read_bytes (key iterator) (behind (length previous)) n = k"
        by (simp add: read_bytes_within)
      with d have "memcmp k k n = Inr d"
        by simp
      moreover from assms have "memcmp k k n = Inr 0"
        by (simp add: memcmp_zero_iff)
      ultimately show False
        using False by simp
    qed
    from Cons.IH [of "previous @ [iterator]"] obtain passed rest
      where "chain_walk_past behind (previous @ [iterator]) nxt k n = Inr (passed, rest)"
        and "(previous @ [iterator]) @ nxt = passed @ rest"
        and "rest = [] \<longrightarrow> (\<forall>e \<in> set nxt. key e \<noteq> k)"
      by blast
    with d False other show ?thesis
      by simp
  qed
qed

lemma insert_at_past_total:
  assumes "unat idx < length (buckets m)" and "length (key nb) = unat (key_size nb)"
  shows "hashmap_hashbucket_insert_at_past behind m nb idx = Inr (False, m)
    \<or> hashmap_hashbucket_insert_at_past behind m nb idx
          = Inr (True, m\<lparr>buckets := (buckets m)[unat idx := buckets m ! unat idx @ [nb]]\<rparr>)
        \<and> (\<forall>e \<in> set (buckets m ! unat idx). key e \<noteq> key nb)"
proof (cases "buckets m ! unat idx = []")
  case True
  with assms(1) show ?thesis
    by (simp add: hashmap_hashbucket_insert_at_past_def)
next
  case False
  from chain_walk_past_total [OF assms(2), of behind "[]" "buckets m ! unat idx"]
  obtain passed rest
    where walk: "chain_walk_past behind [] (buckets m ! unat idx) (key nb)
        (unat (key_size nb)) = Inr (passed, rest)"
      and whole: "buckets m ! unat idx = passed @ rest"
      and fresh: "rest = [] \<longrightarrow> (\<forall>e \<in> set (buckets m ! unat idx). key e \<noteq> key nb)"
    by auto
  with False assms(1) show ?thesis
    by (cases rest) (simp_all add: hashmap_hashbucket_insert_at_past_def)
qed

lemma hashbucket_new_past_result:
  assumes "hashbucket_new_past behind mem k ksize v clone w = (Some nb, w')"
  shows "length (key nb) = unat (key_size nb)"
  using assms
  by (auto simp: hashbucket_new_past_def Let_def length_read_bytes
      split: if_splits option.splits prod.splits)

lemma hashmap_add_past_keeps:
  assumes "table_shaped m" and "keys_unique m"
  shows "\<exists>ok m' w'. hashmap_add_past around mem (Some m) kp ksize v w = Inr (ok, Some m', w')
    \<and> table_shaped m' \<and> keys_unique m'"
proof (cases "kp = None \<or> ksize = 0")
  case True
  with assms show ?thesis
    by (auto simp: hashmap_add_past_def split: option.splits)
next
  case False
  then obtain k where kp: "kp = Some k" and nonzero: "ksize \<noteq> 0"
    by auto
  obtain made w1
    where new: "hashbucket_new_past (behind_key around) mem k (of_nat ksize) v
        (value_clone_function m) w = (made, w1)"
    by (cases "hashbucket_new_past (behind_key around) mem k (of_nat ksize) v
        (value_clone_function m) w")
  show ?thesis
  proof (cases made)
    case None
    with kp nonzero new assms show ?thesis
      by (auto simp: hashmap_add_past_def)
  next
    case (Some nb)
    define idx where "idx = hashmap_hash_function m k ksize AND hashmask m"
    have in_range: "unat idx < length (buckets m)"
      unfolding idx_def using assms(1) by (rule masked_index_in_table)
    from new Some have whole: "length (key nb) = unat (key_size nb)"
      by (simp add: hashbucket_new_past_result)
    from insert_at_past_total [OF in_range whole, of "behind_entry around"] show ?thesis
    proof
      assume "hashmap_hashbucket_insert_at_past (behind_entry around) m nb idx
        = Inr (False, m)"
      with kp nonzero new Some assms show ?thesis
        by (auto simp: hashmap_add_past_def idx_def)
    next
      assume accepted: "hashmap_hashbucket_insert_at_past (behind_entry around) m nb idx
          = Inr (True, m\<lparr>buckets := (buckets m)[unat idx := buckets m ! unat idx @ [nb]]\<rparr>)
        \<and> (\<forall>e \<in> set (buckets m ! unat idx). key e \<noteq> key nb)"
      then have "(key nb, key_size nb)
          \<notin> set (map (\<lambda>b. (key b, key_size b)) (buckets m ! unat idx))"
        by fastforce
      with keys_unique_nth [OF assms(2) in_range]
      have "chain_keys_distinct (buckets m ! unat idx @ [nb])"
        by (simp add: chain_keys_distinct_def)
      from keys_unique_update [OF assms(2) this]
      have "keys_unique (m\<lparr>buckets := (buckets m)[unat idx := buckets m ! unat idx @ [nb]]\<rparr>)" .
      moreover from table_shaped_update [OF assms(1)]
      have "table_shaped (m\<lparr>buckets := (buckets m)[unat idx := buckets m ! unat idx @ [nb]]\<rparr>)" .
      ultimately show ?thesis
        using kp nonzero new Some accepted
        by (auto simp: hashmap_add_past_def idx_def)
    qed
  qed
qed

lemma hashmap_remove_past_keeps:
  assumes "table_shaped m" and "keys_unique m"
  shows "\<exists>ok m' w'. hashmap_remove_past around (Some m) kp ksize w = Inr (ok, Some m', w')
    \<and> table_shaped m' \<and> keys_unique m'"
proof (cases "kp = None \<or> ksize = 0")
  case True
  with assms show ?thesis
    by (auto simp: hashmap_remove_past_def split: option.splits)
next
  case False
  then obtain k where kp: "kp = Some k" and nonzero: "ksize \<noteq> 0"
    by auto
  define idx where "idx = hashmap_hash_function m k ksize AND hashmask m"
  have in_range: "unat idx < length (buckets m)"
    and below: "\<not> bucketcount m \<le> idx"
    unfolding idx_def using assms(1) by (rule masked_index_in_table)+
  have "length (read_bytes k (behind_key around) ksize) = ksize"
    by (rule length_read_bytes)
  from chain_walk_past_total [OF this, of "behind_entry around" "[]" "buckets m ! unat idx"]
  obtain passed rest
    where walk: "chain_walk_past (behind_entry around) [] (buckets m ! unat idx)
        (read_bytes k (behind_key around) ksize) ksize = Inr (passed, rest)"
      and whole: "buckets m ! unat idx = passed @ rest"
    by auto
  show ?thesis
  proof (cases rest)
    case Nil
    with kp nonzero in_range below walk assms show ?thesis
      by (cases "buckets m ! unat idx")
        (auto simp: hashmap_remove_past_def Let_def idx_def)
  next
    case (Cons iterator nxt)
    from keys_unique_nth [OF assms(2) in_range] whole Cons
    have "chain_keys_distinct (passed @ nxt)"
      by (simp add: chain_keys_distinct_def)
    from keys_unique_update [OF assms(2) this]
    have "keys_unique (m\<lparr>buckets := (buckets m)[unat idx := passed @ nxt]\<rparr>)" .
    moreover from table_shaped_update [OF assms(1)]
    have "table_shaped (m\<lparr>buckets := (buckets m)[unat idx := passed @ nxt]\<rparr>)" .
    moreover from whole Cons have "buckets m ! unat idx \<noteq> []"
      by auto
    ultimately show ?thesis
      using kp nonzero in_range below walk Cons
      by (auto simp: hashmap_remove_past_def Let_def idx_def [symmetric])
  qed
qed

lemma run_operations_past_keeps:
  assumes "table_shaped m" and "keys_unique m"
  shows "\<exists>m' w'. run_operations_past (Some m) calls w = Inr (Some m', w')
    \<and> table_shaped m' \<and> keys_unique m'"
  using assms
proof (induction calls arbitrary: m w)
  case Nil
  then show ?case by simp
next
  case (Cons call calls)
  obtain around op where call: "call = (around, op)"
    by (cases call)
  show ?case
  proof (cases op)
    case (Add mem kp ksize v)
    from hashmap_add_past_keeps [OF Cons.prems, of around mem kp ksize v w] obtain ok m1 w1
      where "hashmap_add_past around mem (Some m) kp ksize v w = Inr (ok, Some m1, w1)"
        and "table_shaped m1" and "keys_unique m1"
      by blast
    with Cons.IH [of m1 w1] call Add show ?thesis
      by simp
  next
    case (Remove kp ksize)
    from hashmap_remove_past_keeps [OF Cons.prems, of around kp ksize w] obtain ok m1 w1
      where "hashmap_remove_past around (Some m) kp ksize w = Inr (ok, Some m1, w1)"
        and "table_shaped m1" and "keys_unique m1"
      by blast
    with Cons.IH [of m1 w1] call Remove show ?thesis
      by simp
  qed
qed

text \<open>
  Claim C6. Start from a map that \<open>hashmap_new\<close> returned and run any sequence of
  \<open>hashmap_add\<close> and \<open>hashmap_remove\<close> calls on it: any arguments, any outcome of the
  allocations, and any bytes in memory behind the key buffers, which the comparisons
  read when a stored key is shorter than the key looked for. The run reaches its end
  without a fault, the map is still there, and no chain of it holds two entries with
  the same key bytes and key size.
\<close>

theorem keys_unique_after_any_sequence:
  assumes "hashmap_new mem requested hash_function clone free = Inr (Some m0)"
  shows "\<exists>m w'. run_operations_past (Some m0) calls w = Inr (Some m, w') \<and> keys_unique m"
  using run_operations_past_keeps
    [OF hashmap_new_table_shaped [OF assms] hashmap_new_keys_unique [OF assms], of calls w]
  by blast

text \<open>
  The theorem on a run of five calls on the one-bucket map: \<^verbatim>\<open>a\<close> is inserted;
  \<^verbatim>\<open>ab\<close> is rejected while a \<^verbatim>\<open>b\<close> lies behind the key copy of \<^verbatim>\<open>a\<close>, and inserted
  once a zero lies there; a second \<^verbatim>\<open>a\<close> is rejected; the removal of \<^verbatim>\<open>abc\<close> reads
  past both key copies and finds nothing.
\<close>

theorem keys_unique_after_any_sequence_witness:
  "hashmap_new (True, True) 1 (Some hash_first_byte) None None = Inr (Some one_bucket)
   \<and> run_operations_past (Some one_bucket)
        [(zeros_behind, Add (True, True) (Some key_a) 1 1),
         (b_behind, Add (True, True) (Some key_ab) 2 2),
         (zeros_behind, Add (True, True) (Some key_ab) 2 3),
         (zeros_behind, Add (True, True) (Some key_a) 1 4),
         (zeros_behind, Remove (Some key_abc) 3)] []
       = Inr (Some (one_bucket\<lparr>buckets := [[entry key_a 1, entry key_ab 3]]\<rparr>), [])
   \<and> keys_unique (one_bucket\<lparr>buckets := [[entry key_a 1, entry key_ab 3]]\<rparr>)"
proof -
  have run: "run_operations_past (Some one_bucket)
        [(zeros_behind, Add (True, True) (Some key_a) 1 1),
         (b_behind, Add (True, True) (Some key_ab) 2 2),
         (zeros_behind, Add (True, True) (Some key_ab) 2 3),
         (zeros_behind, Add (True, True) (Some key_a) 1 4),
         (zeros_behind, Remove (Some key_abc) 3)] []
       = Inr (Some (one_bucket\<lparr>buckets := [[entry key_a 1, entry key_ab 3]]\<rparr>), [])"
    by (simp add: eval_defs eval_past_defs input_defs)
  from keys_unique_after_any_sequence [OF one_bucket_built,
      of "[(zeros_behind, Add (True, True) (Some key_a) 1 1),
         (b_behind, Add (True, True) (Some key_ab) 2 2),
         (zeros_behind, Add (True, True) (Some key_ab) 2 3),
         (zeros_behind, Add (True, True) (Some key_a) 1 4),
         (zeros_behind, Remove (Some key_abc) 3)]" "[]"] one_bucket_built run
  show ?thesis
    by simp
qed

subsection \<open>Empty keys and null arguments\<close>

lemma null_arguments_rejected:
  "hashmap_add mem None kp ksize v w = Inr (False, None, w)"
  "hashmap_add mem hmap None ksize v w = Inr (False, hmap, w)"
  "hashmap_get None kp ksize = Inr NULL"
  "hashmap_get hmap None ksize = Inr NULL"
  "hashmap_remove None kp ksize w = Inr (False, None, w)"
  "hashmap_remove hmap None ksize w = Inr (False, hmap, w)"
  by (simp_all add: hashmap_add_def hashmap_get_def hashmap_remove_def split: option.split)

text \<open>
  Claim C8. With a key size of zero, \<open>hashmap_add\<close> and \<open>hashmap_remove\<close> return false
  and \<open>hashmap_get\<close> returns \<open>NULL\<close>, for every map pointer (null or not), every key
  pointer and every outcome of the allocator. No fault occurs, the map is the one passed
  in, and the caller's state is untouched: neither the clone nor the free function runs.
\<close>

theorem zero_length_key_rejected:
  "hashmap_add mem hmap kp 0 v w = Inr (False, hmap, w)
   \<and> hashmap_get hmap kp 0 = Inr NULL
   \<and> hashmap_remove hmap kp 0 w = Inr (False, hmap, w)"
  by (simp add: hashmap_add_def hashmap_get_def hashmap_remove_def split: option.split)

end
